theory Spec2Isabelle
  imports Main "HOL-Library.Sublist"
begin

section \<open>Python strings\<close>

text \<open>
  A Python \<open>str\<close> is a sequence of Unicode code points, so it is modelled as a list of
  natural numbers (HOL's \<open>char\<close> is a byte and cannot hold a Cyrillic letter). The
  string methods the loader calls are modelled on the code points of Basic Latin and of
  the Cyrillic block U+0400..U+045F, which is what the registry data and the literals of
  the loader are written in; every other code point is treated as caseless and as not
  being a digit. Whitespace is the full set of code points for which Python's
  \<open>str.isspace\<close> holds.

  So \<open>py_lower_cp\<close>, \<open>py_upper_cp\<close> and with them \<open>py_lower\<close> and \<open>py_capitalize\<close> agree
  with \<open>str.lower\<close> and \<open>str.capitalize\<close> on the strings for which \<open>in_alphabet\<close> holds,
  and on those only: outside them Python has further cased letters (U+04D9 has the
  capital U+04D8) and case mappings that change the length. \<open>py_isdigit_cp\<close> knows the
  ten ASCII digits, where \<open>str.isdigit\<close> also accepts the digits of other scripts. A
  statement about the result of a case conversion therefore carries \<open>in_alphabet\<close> of the
  converted string as a hypothesis.
\<close>

type_synonym pystr = "nat list"

definition py_isspace_cp :: "nat \<Rightarrow> bool" where
  "py_isspace_cp c =
     ((9 \<le> c \<and> c \<le> 13) \<or> (28 \<le> c \<and> c \<le> 32) \<or> c = 133 \<or> c = 160 \<or> c = 5760
      \<or> (8192 \<le> c \<and> c \<le> 8202) \<or> c = 8232 \<or> c = 8233 \<or> c = 8239 \<or> c = 8287
      \<or> c = 12288)"

definition py_lower_cp :: "nat \<Rightarrow> nat" where
  "py_lower_cp c =
     (if 65 \<le> c \<and> c \<le> 90 then c + 32
      else if 1040 \<le> c \<and> c \<le> 1071 then c + 32
      else if 1024 \<le> c \<and> c \<le> 1039 then c + 80
      else c)"

definition py_upper_cp :: "nat \<Rightarrow> nat" where
  "py_upper_cp c =
     (if 97 \<le> c \<and> c \<le> 122 then c - 32
      else if 1072 \<le> c \<and> c \<le> 1103 then c - 32
      else if 1104 \<le> c \<and> c \<le> 1119 then c - 80
      else c)"

definition py_iscased_cp :: "nat \<Rightarrow> bool" where
  "py_iscased_cp c = (py_lower_cp c \<noteq> c \<or> py_upper_cp c \<noteq> c)"

definition py_isdigit_cp :: "nat \<Rightarrow> bool" where
  "py_isdigit_cp c = (48 \<le> c \<and> c \<le> 57)"

definition py_strip :: "pystr \<Rightarrow> pystr" where
  "py_strip s = rev (dropWhile py_isspace_cp (rev (dropWhile py_isspace_cp s)))"

definition py_lower :: "pystr \<Rightarrow> pystr" where
  "py_lower s = map py_lower_cp s"

text \<open>\<open>str.capitalize\<close>: the first character upper-cased, all the others lower-cased.\<close>

definition py_capitalize :: "pystr \<Rightarrow> pystr" where
  "py_capitalize s = (case s of [] \<Rightarrow> [] | c # cs \<Rightarrow> py_upper_cp c # map py_lower_cp cs)"

definition in_alphabet :: "pystr \<Rightarrow> bool" where
  "in_alphabet s = list_all (\<lambda>c. c < 128 \<or> (1024 \<le> c \<and> c \<le> 1119)) s"

text \<open>\<open>str.isdigit\<close>: at least one character, and all of them digits.\<close>

definition py_isdigit :: "pystr \<Rightarrow> bool" where
  "py_isdigit s = (s \<noteq> [] \<and> list_all py_isdigit_cp s)"

fun py_startswith :: "pystr \<Rightarrow> pystr \<Rightarrow> bool" where
  "py_startswith s [] = True"
| "py_startswith [] (p # ps) = False"
| "py_startswith (c # cs) (p # ps) = (c = p \<and> py_startswith cs ps)"

text \<open>\<open>sub in s\<close>: \<open>sub\<close> occurs in \<open>s\<close> as a contiguous run.\<close>

fun py_contains :: "pystr \<Rightarrow> pystr \<Rightarrow> bool" where
  "py_contains [] sub = (sub = [])"
| "py_contains (c # cs) sub = (py_startswith (c # cs) sub \<or> py_contains cs sub)"

text \<open>\<open>s.split(sep, 1)\<close> for a separator of one character: at most two parts.\<close>

definition py_split1 :: "pystr \<Rightarrow> nat \<Rightarrow> pystr list" where
  "py_split1 s sep =
     (if sep \<in> set s then [takeWhile (\<lambda>c. c \<noteq> sep) s, tl (dropWhile (\<lambda>c. c \<noteq> sep) s)]
      else [s])"

text \<open>
  The spec's word for the normalisation of a region name is "title-cased". Python's
  \<open>str.title\<close> is the reading of that word: every cased character that follows an
  uncased one (or starts the string) is upper-cased, every other one lower-cased. It is
  defined here from the spec's word, to be compared with what the loader calls.
\<close>

fun spec_title_from :: "bool \<Rightarrow> pystr \<Rightarrow> pystr" where
  "spec_title_from prev [] = []"
| "spec_title_from prev (c # cs) =
     (if prev then py_lower_cp c else py_upper_cp c) # spec_title_from (py_iscased_cp c) cs"

definition spec_title_cased :: "pystr \<Rightarrow> pystr" where
  "spec_title_cased s = spec_title_from False s"

section \<open>Log records\<close>

text \<open>
  The loader reports through \<open>logging\<close>, configured at level INFO: \<open>logging.debug\<close>
  calls emit nothing and are left out. The warnings and errors are kept apart by
  constructor, with the values their messages are formatted from.
\<close>

datatype log_entry =
    Info string
  | WarnRegionNotExtracted pystr
  | WarnCertificateWithoutOrganization
  | WarnOrganizationWithoutOgrn pystr
  | WarnSkipWithoutOgrn pystr
  | WarnParentNotFound pystr pystr
  | ErrorDatabase
  | ErrorFlushFirstPass

section \<open>The address fallback: \<open>DataLoader._extract_region_from_address\<close>\<close>

text \<open>
  The four literals of \<open>possible_regions\<close>, in the source's order:
  "g. moskva", "moskovskaya oblast'", "g. sankt-peterburg", "leningradskaya oblast'"
  (written in Cyrillic in the source).
\<close>

definition possible_regions :: "pystr list" where
  "possible_regions =
     [[1075, 46, 32, 1084, 1086, 1089, 1082, 1074, 1072],
      [1084, 1086, 1089, 1082, 1086, 1074, 1089, 1082, 1072, 1103, 32,
       1086, 1073, 1083, 1072, 1089, 1090, 1100],
      [1075, 46, 32, 1089, 1072, 1085, 1082, 1090, 45,
       1087, 1077, 1090, 1077, 1088, 1073, 1091, 1088, 1075],
      [1083, 1077, 1085, 1080, 1085, 1075, 1088, 1072, 1076, 1089, 1082, 1072, 1103, 32,
       1086, 1073, 1083, 1072, 1089, 1090, 1100]]"

text \<open>
  The function returns the region name or \<open>None\<close>, and the warning it logs on the last
  path. The inner \<open>else: return None\<close> of the source is the second branch of the inner
  \<open>if len(parts) > 1\<close>.
\<close>

definition extract_region_from_address :: "pystr \<Rightarrow> pystr option \<times> log_entry list" where
  "extract_region_from_address address =
     (let address_lower = py_lower address in
      case find (\<lambda>region_name. py_contains address_lower region_name) possible_regions of
        Some region_name \<Rightarrow> (Some (py_capitalize region_name), [])
      | None \<Rightarrow>
          (let parts = py_split1 address 44 in
           if length parts > 1 then
             (let region_part = py_strip (hd parts) in
              if py_isdigit region_part \<and> length region_part = 6 then
                (if length parts > 1
                 then (Some (py_capitalize (py_strip (hd (py_split1 (hd (tl parts)) 44)))), [])
                 else (None, []))
              else (Some (py_capitalize region_part), []))
           else (None, [WarnRegionNotExtracted address])))"

section \<open>The streaming XML parser: \<open>DataLoader._parse_xml_files\<close>\<close>

text \<open>
  An element has a tag, a text (absent when the element holds no character data before
  its first child) and children. Tags are the ASCII names of the registry's schema.
\<close>

datatype xml = Element (tag: string) (elem_text: "pystr option") (children: "xml list")

text \<open>\<open>find\<close>, \<open>findall\<close> and \<open>findtext\<close> with a plain tag as path look at the children.\<close>

definition xml_find :: "xml \<Rightarrow> string \<Rightarrow> xml option" where
  "xml_find e t = find (\<lambda>c. tag c = t) (children e)"

definition xml_findall :: "xml \<Rightarrow> string \<Rightarrow> xml list" where
  "xml_findall e t = filter (\<lambda>c. tag c = t) (children e)"

definition xml_findtext :: "xml \<Rightarrow> string \<Rightarrow> pystr option" where
  "xml_findtext e t =
     (case xml_find e t of None \<Rightarrow> None
      | Some c \<Rightarrow> Some (case elem_text c of None \<Rightarrow> [] | Some s \<Rightarrow> s))"

text \<open>\<open>_get_text\<close>: an absent element and an empty text both give the default.\<close>

definition get_text :: "xml \<Rightarrow> string \<Rightarrow> pystr \<Rightarrow> pystr" where
  "get_text element xpath dflt =
     (case xml_findtext element xpath of
        None \<Rightarrow> dflt
      | Some found \<Rightarrow> if found \<noteq> [] then py_strip found else dflt)"

record prog_data =
  specialty_code :: pystr
  specialty_name :: pystr
  ugs_code :: pystr
  ugs_name :: pystr

record org_data =
  full_name :: pystr
  short_name :: pystr
  ogrn :: pystr
  inn :: pystr
  address :: pystr
  is_branch :: bool
  parent_ogrn :: "pystr option"
  region_name :: pystr
  programs :: "prog_data list"

text \<open>
  The body of the loop over \<open>EducationalProgram\<close> elements: \<open>None\<close> is \<open>continue\<close> or
  the skipped program without a code. The comparison is with the string "0" (code
  point 48), the default is "1" (code point 49).
\<close>

definition parse_program :: "xml \<Rightarrow> prog_data option" where
  "parse_program program_elem =
     (let is_accredited = (get_text program_elem ''IsAccredited'' [49] = [48]) in
      if \<not> is_accredited then None
      else
        (let prog = \<lparr> specialty_code = get_text program_elem ''ProgrammCode'' [],
                      specialty_name = get_text program_elem ''ProgrammName'' [],
                      ugs_code = get_text program_elem ''UGSCode'' [],
                      ugs_name = get_text program_elem ''UGSName'' [] \<rparr>
         in if specialty_code prog \<noteq> [] then Some prog else None))"

definition parse_supplement :: "xml \<Rightarrow> prog_data list" where
  "parse_supplement supp_elem =
     (case xml_find supp_elem ''EducationalPrograms'' of
        None \<Rightarrow> []
      | Some programs_elem \<Rightarrow>
          List.map_filter parse_program (xml_findall programs_elem ''EducationalProgram''))"

definition parse_programs :: "xml \<Rightarrow> prog_data list" where
  "parse_programs cert_elem =
     (case xml_find cert_elem ''Supplements'' of
        None \<Rightarrow> []
      | Some supplements_elem \<Rightarrow>
          concat (map parse_supplement (xml_findall supplements_elem ''Supplement'')))"

text \<open>
  The body of the loop over \<open>Certificate\<close> elements: the record, or \<open>None\<close> for a
  certificate that is skipped, and the warning logged.
\<close>

definition parse_certificate :: "xml \<Rightarrow> org_data option \<times> log_entry list" where
  "parse_certificate cert_elem =
     (case xml_find cert_elem ''ActualEducationOrganization'' of
        None \<Rightarrow> (None, [WarnCertificateWithoutOrganization])
      | Some org_elem \<Rightarrow>
          (let branch = (get_text org_elem ''IsBranch'' [48] = [49]);
               od = \<lparr> full_name = get_text org_elem ''FullName'' [],
                      short_name = get_text org_elem ''ShortName'' [],
                      ogrn = get_text org_elem ''OGRN'' [],
                      inn = get_text org_elem ''INN'' [],
                      address = get_text org_elem ''PostAddress'' [],
                      is_branch = branch,
                      parent_ogrn = (if branch then Some (get_text cert_elem ''EduOrgOGRN'' [])
                                     else None),
                      region_name = get_text org_elem ''RegionName'' [],
                      programs = [] \<rparr>
           in if ogrn od = [] then (None, [WarnOrganizationWithoutOgrn (get_text cert_elem ''Id'' [])])
              else (Some (od\<lparr>programs := parse_programs cert_elem\<rparr>), [])))"

text \<open>
  A file is given by the \<open>Certificate\<close> elements that \<open>iterparse\<close> yields for it, in
  document order; the result is the list of the records of all the files.
\<close>

definition parse_xml_files :: "xml list list \<Rightarrow> org_data list" where
  "parse_xml_files xml_files =
     concat (map (\<lambda>certs. List.map_filter (\<lambda>c. fst (parse_certificate c)) certs) xml_files)"

section \<open>The models of \<open>models.py\<close> and the storage\<close>

text \<open>
  A row of each table. A column declared \<open>nullable=False\<close> (and every primary key)
  holds a value; a nullable column holds an optional one.
\<close>

record Region =
  r_id :: nat
  r_name :: pystr

record SpecialtyGroup =
  g_id :: nat
  g_code :: pystr
  g_name :: pystr

record Specialty =
  s_id :: nat
  s_code :: pystr
  s_name :: pystr
  s_group_id :: nat

record EducationalOrganization =
  eo_id :: nat
  eo_full_name :: pystr
  eo_short_name :: "pystr option"
  eo_ogrn :: "pystr option"
  eo_inn :: "pystr option"
  eo_address :: "pystr option"
  eo_region_id :: "nat option"
  eo_parent_id :: "nat option"

record EducationalProgram =
  p_id :: nat
  p_organization_id :: nat
  p_specialty_id :: nat

record db =
  regions :: "Region list"
  specialty_groups :: "SpecialtyGroup list"
  specialties :: "Specialty list"
  organizations :: "EducationalOrganization list"
  programs_table :: "EducationalProgram list"

datatype error = RuntimeError | IntegrityError | OperationalError

datatype app = FlaskApp

section \<open>The session\<close>

text \<open>
  A Python reference to a model object is a handle: an object a query loaded (it has its
  primary key) or an object the loader constructed, named by a token. A constructed object
  has no primary key until the flush that inserts it; \<open>session_ident\<close> records the keys
  given so far, oldest first (a token is given a key once). \<open>session_new\<close> is the list of added objects not yet flushed, in the
  order of \<open>session.add\<close>. An organization is constructed with \<open>region=region\<close>, a
  reference that the flush turns into \<open>region_id\<close>; a specialty and a program are
  constructed with the values that \<open>group.id\<close>, \<open>organization.id\<close> and
  \<open>specialty.id\<close> had when the constructor's arguments were evaluated.
\<close>

datatype handle = Loaded nat | Created nat

datatype pending =
    NewRegion nat pystr
  | NewSpecialtyGroup nat pystr pystr
  | NewSpecialty nat pystr pystr "nat option"
  | NewOrganization nat pystr "pystr option" "pystr option" "pystr option" "pystr option"
      "handle option" "nat option"
  | NewProgram nat "nat option" "nat option"

text \<open>
  The state of a run: the committed storage, the view of it inside the session's
  transaction, the session's unit of work, the storage's failures and the log.
  \<open>fault = Some n\<close> says that the storage serves \<open>n\<close> more round trips and raises on
  every later one; \<open>None\<close> that it never does. \<open>raised\<close> lists the errors the
  storage layer has raised, \<open>commits\<close> counts the commits.
\<close>

record state =
  storage :: db
  txn :: db
  session_new :: "pending list"
  dirty :: bool
  session_ident :: "(nat \<times> nat) list"
  next_token :: nat
  fault :: "nat option"
  raised :: "error list"
  commits :: nat
  log :: "log_entry list"

type_synonym 'a result = "(error \<times> state) + ('a \<times> state)"

definition handle_id :: "state \<Rightarrow> handle \<Rightarrow> nat option" where
  "handle_id s h = (case h of Loaded i \<Rightarrow> Some i | Created t \<Rightarrow> map_of (session_ident s) t)"

definition raise_error :: "error \<Rightarrow> state \<Rightarrow> (error \<times> state) + 'a" where
  "raise_error e s = Inl (e, s\<lparr>raised := raised s @ [e]\<rparr>)"

definition storage_call :: "state \<Rightarrow> (error \<times> state) + state" where
  "storage_call s =
     (case fault s of
        None \<Rightarrow> Inr s
      | Some 0 \<Rightarrow> raise_error OperationalError s
      | Some (Suc n) \<Rightarrow> Inr (s\<lparr>fault := Some n\<rparr>))"

text \<open>A new primary key is larger than every key of the table.\<close>

definition next_id :: "nat list \<Rightarrow> nat" where
  "next_id ids = Suc (fold max ids 0)"

text \<open>
  The INSERT of one pending object, with the constraints of \<open>models.py\<close>: the unique
  columns (\<open>region.name\<close>, \<open>specialty_group.code\<close>, \<open>specialty.code\<close>,
  \<open>educational_organization.ogrn\<close> and \<open>.inn\<close>, where a NULL never collides) and the
  non-nullable foreign keys of a specialty and of a program.
\<close>

fun insert_pending :: "pending \<Rightarrow> state \<Rightarrow> (error \<times> state) + state" where
  "insert_pending (NewRegion t name) s =
     (if name \<in> set (map r_name (regions (txn s))) then raise_error IntegrityError s
      else
        (let i = next_id (map r_id (regions (txn s))) in
         Inr (s\<lparr>txn := (txn s)\<lparr>regions := regions (txn s) @ [\<lparr>r_id = i, r_name = name\<rparr>]\<rparr>,
                session_ident := session_ident s @ [(t, i)]\<rparr>)))"
| "insert_pending (NewSpecialtyGroup t code name) s =
     (if code \<in> set (map g_code (specialty_groups (txn s))) then raise_error IntegrityError s
      else
        (let i = next_id (map g_id (specialty_groups (txn s))) in
         Inr (s\<lparr>txn := (txn s)\<lparr>specialty_groups := specialty_groups (txn s)
                                   @ [\<lparr>g_id = i, g_code = code, g_name = name\<rparr>]\<rparr>,
                session_ident := session_ident s @ [(t, i)]\<rparr>)))"
| "insert_pending (NewSpecialty t code name group_id) s =
     (case group_id of
        None \<Rightarrow> raise_error IntegrityError s
      | Some gid \<Rightarrow>
          if code \<in> set (map s_code (specialties (txn s))) then raise_error IntegrityError s
          else
            (let i = next_id (map s_id (specialties (txn s))) in
             Inr (s\<lparr>txn := (txn s)\<lparr>specialties := specialties (txn s)
                      @ [\<lparr>s_id = i, s_code = code, s_name = name, s_group_id = gid\<rparr>]\<rparr>,
                    session_ident := session_ident s @ [(t, i)]\<rparr>)))"
| "insert_pending (NewOrganization t fname sname ogrn_v inn_v addr region parent) s =
     (if (ogrn_v \<noteq> None \<and> ogrn_v \<in> set (map eo_ogrn (organizations (txn s))))
         \<or> (inn_v \<noteq> None \<and> inn_v \<in> set (map eo_inn (organizations (txn s))))
      then raise_error IntegrityError s
      else
        (let i = next_id (map eo_id (organizations (txn s)));
             rid = (case region of None \<Rightarrow> None | Some h \<Rightarrow> handle_id s h) in
         Inr (s\<lparr>txn := (txn s)\<lparr>organizations := organizations (txn s)
                  @ [\<lparr>eo_id = i, eo_full_name = fname, eo_short_name = sname, eo_ogrn = ogrn_v,
                      eo_inn = inn_v, eo_address = addr, eo_region_id = rid,
                      eo_parent_id = parent\<rparr>]\<rparr>,
                session_ident := session_ident s @ [(t, i)]\<rparr>)))"
| "insert_pending (NewProgram t organization_id specialty_id) s =
     (case (organization_id, specialty_id) of
        (Some oid, Some sid) \<Rightarrow>
          (let i = next_id (map p_id (programs_table (txn s))) in
           Inr (s\<lparr>txn := (txn s)\<lparr>programs_table := programs_table (txn s)
                    @ [\<lparr>p_id = i, p_organization_id = oid, p_specialty_id = sid\<rparr>]\<rparr>,
                  session_ident := session_ident s @ [(t, i)]\<rparr>))
      | _ \<Rightarrow> raise_error IntegrityError s)"

fun insert_all :: "pending list \<Rightarrow> state \<Rightarrow> (error \<times> state) + state" where
  "insert_all [] s = Inr s"
| "insert_all (p # ps) s =
     (case insert_pending p s of Inl e \<Rightarrow> Inl e | Inr s' \<Rightarrow> insert_all ps s')"

text \<open>
  \<open>session.flush()\<close>: nothing to write and nothing is sent; otherwise one round trip
  that inserts the pending objects in the order they were added (a region is always
  added before the organization that refers to it). The UPDATE of a changed
  \<open>parent_id\<close> is applied to the transaction's view when the attribute is assigned;
  \<open>dirty\<close> keeps that the flush has it to send.
\<close>

definition flush :: "state \<Rightarrow> (error \<times> state) + state" where
  "flush s =
     (if session_new s = [] \<and> \<not> dirty s then Inr s
      else
        (case storage_call s of
           Inl e \<Rightarrow> Inl e
         | Inr s1 \<Rightarrow>
             (case insert_all (session_new s1) s1 of
                Inl e \<Rightarrow> Inl e
              | Inr s2 \<Rightarrow> Inr (s2\<lparr>session_new := [], dirty := False\<rparr>))))"

text \<open>
  \<open>session.query(model).filter_by(...).first()\<close>: the session flushes first
  (autoflush is on by default), then the SELECT is a round trip.
\<close>

definition query_first :: "(db \<Rightarrow> 'r list) \<Rightarrow> ('r \<Rightarrow> bool) \<Rightarrow> state \<Rightarrow> 'r option result" where
  "query_first table P s =
     (case flush s of
        Inl e \<Rightarrow> Inl e
      | Inr s1 \<Rightarrow>
          (case storage_call s1 of
             Inl e \<Rightarrow> Inl e
           | Inr s2 \<Rightarrow> Inr (find P (table (txn s2)), s2)))"

definition session_add :: "(nat \<Rightarrow> pending) \<Rightarrow> state \<Rightarrow> handle \<times> state" where
  "session_add mk s =
     (Created (next_token s),
      s\<lparr>session_new := session_new s @ [mk (next_token s)], next_token := Suc (next_token s)\<rparr>)"

definition commit :: "state \<Rightarrow> (error \<times> state) + state" where
  "commit s =
     (case flush s of
        Inl e \<Rightarrow> Inl e
      | Inr s1 \<Rightarrow>
          (case storage_call s1 of
             Inl e \<Rightarrow> Inl e
           | Inr s2 \<Rightarrow> Inr (s2\<lparr>storage := txn s2, commits := Suc (commits s2)\<rparr>)))"

definition rollback :: "state \<Rightarrow> state" where
  "rollback s = s\<lparr>txn := storage s, session_new := [], dirty := False\<rparr>"

text \<open>
  \<open>organization.parent_id = value\<close>: on a flushed object, the row with its primary
  key; on an object still pending, the pending object.
\<close>

fun set_pending_parent :: "nat \<Rightarrow> nat option \<Rightarrow> pending \<Rightarrow> pending" where
  "set_pending_parent t v (NewOrganization t' fname sname ogrn_v inn_v addr region parent) =
     (if t' = t then NewOrganization t' fname sname ogrn_v inn_v addr region v
      else NewOrganization t' fname sname ogrn_v inn_v addr region parent)"
| "set_pending_parent t v p = p"

definition set_parent_id :: "handle \<Rightarrow> nat option \<Rightarrow> state \<Rightarrow> state" where
  "set_parent_id h v s =
     (case handle_id s h of
        Some i \<Rightarrow>
          s\<lparr>txn := (txn s)\<lparr>organizations :=
                 map (\<lambda>r. if eo_id r = i then r\<lparr>eo_parent_id := v\<rparr> else r)
                     (organizations (txn s))\<rparr>,
            dirty := True\<rparr>
      | None \<Rightarrow>
          (case h of
             Created t \<Rightarrow> s\<lparr>session_new := map (set_pending_parent t v) (session_new s)\<rparr>
           | Loaded i \<Rightarrow> s))"

text \<open>
  \<open>session_scope\<close>: without an application the error is raised before any session
  exists. With one, the application context gives a session of its own, the body runs,
  and the scope commits, or logs the error, rolls back and raises it again.
\<close>

definition session_scope ::
  "app option \<Rightarrow> (state \<Rightarrow> 'a result) \<Rightarrow> state \<Rightarrow> (error + 'a) \<times> state" where
  "session_scope app_opt body st =
     (case app_opt of
        None \<Rightarrow> (Inl RuntimeError, st)
      | Some a \<Rightarrow>
          (let session = st\<lparr>txn := storage st, session_new := [], dirty := False,
                            session_ident := [], next_token := 0\<rparr> in
           case body session of
             Inl (e, s) \<Rightarrow> (Inl e, rollback (s\<lparr>log := log s @ [ErrorDatabase]\<rparr>))
           | Inr (v, s) \<Rightarrow>
               (case commit s of
                  Inl (e, s') \<Rightarrow> (Inl e, rollback (s'\<lparr>log := log s' @ [ErrorDatabase]\<rparr>))
                | Inr s' \<Rightarrow> (Inr v, s'))))"

section \<open>\<open>DataLoader._get_or_create\<close>\<close>

text \<open>
  One instance for each model the loader calls it with; the result is the object and
  whether it was created.
\<close>

definition get_or_create_Region :: "pystr \<Rightarrow> state \<Rightarrow> (handle \<times> bool) result" where
  "get_or_create_Region name s =
     (case query_first regions (\<lambda>r. r_name r = name) s of
        Inl e \<Rightarrow> Inl e
      | Inr (Some r, s1) \<Rightarrow> Inr ((Loaded (r_id r), False), s1)
      | Inr (None, s1) \<Rightarrow>
          (let (h, s2) = session_add (\<lambda>t. NewRegion t name) s1 in Inr ((h, True), s2)))"

definition get_or_create_SpecialtyGroup ::
  "pystr \<Rightarrow> pystr \<Rightarrow> state \<Rightarrow> (handle \<times> bool) result" where
  "get_or_create_SpecialtyGroup code name s =
     (case query_first specialty_groups (\<lambda>r. g_code r = code) s of
        Inl e \<Rightarrow> Inl e
      | Inr (Some r, s1) \<Rightarrow> Inr ((Loaded (g_id r), False), s1)
      | Inr (None, s1) \<Rightarrow>
          (let (h, s2) = session_add (\<lambda>t. NewSpecialtyGroup t code name) s1
           in Inr ((h, True), s2)))"

definition get_or_create_Specialty ::
  "pystr \<Rightarrow> pystr \<Rightarrow> nat option \<Rightarrow> state \<Rightarrow> (handle \<times> bool) result" where
  "get_or_create_Specialty code name group_id s =
     (case query_first specialties (\<lambda>r. s_code r = code) s of
        Inl e \<Rightarrow> Inl e
      | Inr (Some r, s1) \<Rightarrow> Inr ((Loaded (s_id r), False), s1)
      | Inr (None, s1) \<Rightarrow>
          (let (h, s2) = session_add (\<lambda>t. NewSpecialty t code name group_id) s1
           in Inr ((h, True), s2)))"

section \<open>\<open>DataLoader._populate_db\<close>\<close>

text \<open>The four dictionaries of a run, from natural key to object.\<close>

record caches =
  regions_cache :: "pystr \<rightharpoonup> handle"
  specialty_groups_cache :: "pystr \<rightharpoonup> handle"
  specialties_cache :: "pystr \<rightharpoonup> handle"
  organizations_cache :: "pystr \<rightharpoonup> handle"

definition empty_caches :: caches where
  "empty_caches = \<lparr> regions_cache = Map.empty, specialty_groups_cache = Map.empty,
                     specialties_cache = Map.empty, organizations_cache = Map.empty \<rparr>"

definition log_append :: "log_entry \<Rightarrow> state \<Rightarrow> state" where
  "log_append e s = s\<lparr>log := log s @ [e]\<rparr>"

text \<open>The region of a normalised name: from \<open>regions_cache\<close>, else got or created.\<close>

definition cached_region :: "pystr \<Rightarrow> caches \<Rightarrow> state \<Rightarrow> (handle \<times> caches) result" where
  "cached_region name c s =
     (case regions_cache c name of
        Some region \<Rightarrow> Inr ((region, c), s)
      | None \<Rightarrow>
          (case get_or_create_Region name s of
             Inl e \<Rightarrow> Inl e
           | Inr ((region, created), s1) \<Rightarrow>
               Inr ((region, c\<lparr>regions_cache := (regions_cache c)(name \<mapsto> region)\<rparr>), s1)))"

text \<open>
  Step 1 of the creation of an organization: the explicit \<open>region_name\<close>, stripped and
  capitalised, or else the address fallback, whose empty result counts as none.
\<close>

definition resolve_region :: "org_data \<Rightarrow> caches \<Rightarrow> state \<Rightarrow> (handle option \<times> caches) result" where
  "resolve_region od c s =
     (if region_name od \<noteq> [] then
        (case cached_region (py_capitalize (py_strip (region_name od))) c s of
           Inl e \<Rightarrow> Inl e
         | Inr ((region, c1), s1) \<Rightarrow> Inr ((Some region, c1), s1))
      else
        (let (region_name_from_addr, warnings) = extract_region_from_address (address od);
             s0 = s\<lparr>log := log s @ warnings\<rparr> in
         case region_name_from_addr of
           None \<Rightarrow> Inr ((None, c), s0)
         | Some name \<Rightarrow>
             if name = [] then Inr ((None, c), s0)
             else
               (case cached_region name c s0 of
                  Inl e \<Rightarrow> Inl e
                | Inr ((region, c1), s1) \<Rightarrow> Inr ((Some region, c1), s1))))"

text \<open>The body of the loop of the first pass.\<close>

definition first_pass_step :: "org_data \<Rightarrow> caches \<Rightarrow> state \<Rightarrow> caches result" where
  "first_pass_step od c s =
     (if ogrn od = [] then Inr (c, log_append (WarnSkipWithoutOgrn (full_name od)) s)
      else if organizations_cache c (ogrn od) \<noteq> None then Inr (c, s)
      else
        (case query_first organizations (\<lambda>r. eo_ogrn r = Some (ogrn od)) s of
           Inl e \<Rightarrow> Inl e
         | Inr (Some r, s1) \<Rightarrow>
             Inr (c\<lparr>organizations_cache := (organizations_cache c)(ogrn od \<mapsto> Loaded (eo_id r))\<rparr>,
                  s1)
         | Inr (None, s1) \<Rightarrow>
             (case resolve_region od c s1 of
                Inl e \<Rightarrow> Inl e
              | Inr ((region, c2), s2) \<Rightarrow>
                  (let (organization, s3) =
                         session_add (\<lambda>t. NewOrganization t (full_name od) (Some (short_name od))
                                        (Some (ogrn od)) (Some (inn od)) (Some (address od))
                                        region None) s2;
                       c3 = c2\<lparr>organizations_cache :=
                                 (organizations_cache c2)(ogrn od \<mapsto> organization)\<rparr>
                   in case flush s3 of Inl e \<Rightarrow> Inl e | Inr s4 \<Rightarrow> Inr (c3, s4)))))"

fun first_pass :: "org_data list \<Rightarrow> caches \<Rightarrow> state \<Rightarrow> caches result" where
  "first_pass [] c s = Inr (c, s)"
| "first_pass (od # ods) c s =
     (case first_pass_step od c s of Inl e \<Rightarrow> Inl e | Inr (c', s') \<Rightarrow> first_pass ods c' s')"

text \<open>
  The parent of a branch: \<open>organizations_cache.get(parent_ogrn) or session.query(...)\<close>.
\<close>

definition find_parent :: "pystr \<Rightarrow> caches \<Rightarrow> state \<Rightarrow> handle option result" where
  "find_parent p c s =
     (case organizations_cache c p of
        Some h \<Rightarrow> Inr (Some h, s)
      | None \<Rightarrow>
          (case query_first organizations (\<lambda>r. eo_ogrn r = Some p) s of
             Inl e \<Rightarrow> Inl e
           | Inr (found, s1) \<Rightarrow> Inr (map_option (\<lambda>r. Loaded (eo_id r)) found, s1)))"

definition link_parent :: "org_data \<Rightarrow> handle \<Rightarrow> caches \<Rightarrow> state \<Rightarrow> unit result" where
  "link_parent od organization c s =
     (case parent_ogrn od of
        None \<Rightarrow> Inr ((), s)
      | Some p \<Rightarrow>
          if \<not> is_branch od \<or> p = [] then Inr ((), s)
          else
            (case find_parent p c s of
               Inl e \<Rightarrow> Inl e
             | Inr (Some parent_organization, s1) \<Rightarrow>
                 Inr ((), set_parent_id organization (handle_id s1 parent_organization) s1)
             | Inr (None, s1) \<Rightarrow> Inr ((), log_append (WarnParentNotFound p (ogrn od)) s1)))"

definition resolve_group :: "prog_data \<Rightarrow> caches \<Rightarrow> state \<Rightarrow> (handle \<times> caches) result" where
  "resolve_group pd c s =
     (case specialty_groups_cache c (ugs_code pd) of
        Some g \<Rightarrow> Inr ((g, c), s)
      | None \<Rightarrow>
          (case get_or_create_SpecialtyGroup (ugs_code pd) (ugs_name pd) s of
             Inl e \<Rightarrow> Inl e
           | Inr ((g, created), s1) \<Rightarrow>
               Inr ((g, c\<lparr>specialty_groups_cache :=
                            (specialty_groups_cache c)(ugs_code pd \<mapsto> g)\<rparr>), s1)))"

text \<open>
  The argument \<open>'group_id': group.id\<close> is evaluated before \<open>_get_or_create\<close> runs its
  query, in the state the caller is in.
\<close>

definition resolve_specialty ::
  "prog_data \<Rightarrow> handle \<Rightarrow> caches \<Rightarrow> state \<Rightarrow> (handle \<times> caches) result" where
  "resolve_specialty pd ugs_group c s =
     (case specialties_cache c (specialty_code pd) of
        Some sp \<Rightarrow> Inr ((sp, c), s)
      | None \<Rightarrow>
          (case get_or_create_Specialty (specialty_code pd) (specialty_name pd)
                  (handle_id s ugs_group) s of
             Inl e \<Rightarrow> Inl e
           | Inr ((sp, created), s1) \<Rightarrow>
               Inr ((sp, c\<lparr>specialties_cache :=
                             (specialties_cache c)(specialty_code pd \<mapsto> sp)\<rparr>), s1)))"

text \<open>
  The body of the loop over a record's programs. The two keys of the lookup of an
  existing program are read before the query flushes; those of the new program after it.
  A key that is \<open>None\<close> makes the filter \<open>IS NULL\<close>, which no row satisfies.
\<close>

definition program_step :: "handle \<Rightarrow> prog_data \<Rightarrow> caches \<Rightarrow> state \<Rightarrow> caches result" where
  "program_step organization pd c s =
     (if specialty_code pd = [] \<or> ugs_code pd = [] then Inr (c, s)
      else
        (case resolve_group pd c s of
           Inl e \<Rightarrow> Inl e
         | Inr ((ugs_group, c1), s1) \<Rightarrow>
             (case resolve_specialty pd ugs_group c1 s1 of
                Inl e \<Rightarrow> Inl e
              | Inr ((specialty, c2), s2) \<Rightarrow>
                  (let oid = handle_id s2 organization; sid = handle_id s2 specialty in
                   case query_first programs_table
                          (\<lambda>r. Some (p_organization_id r) = oid \<and> Some (p_specialty_id r) = sid)
                          s2 of
                     Inl e \<Rightarrow> Inl e
                   | Inr (Some existing_program, s3) \<Rightarrow> Inr (c2, s3)
                   | Inr (None, s3) \<Rightarrow>
                       Inr (c2, snd (session_add
                                       (\<lambda>t. NewProgram t (handle_id s3 organization)
                                                          (handle_id s3 specialty)) s3))))))"

fun programs_loop :: "handle \<Rightarrow> prog_data list \<Rightarrow> caches \<Rightarrow> state \<Rightarrow> caches result" where
  "programs_loop organization [] c s = Inr (c, s)"
| "programs_loop organization (pd # pds) c s =
     (case program_step organization pd c s of
        Inl e \<Rightarrow> Inl e
      | Inr (c', s') \<Rightarrow> programs_loop organization pds c' s')"

definition second_pass_step :: "org_data \<Rightarrow> caches \<Rightarrow> state \<Rightarrow> caches result" where
  "second_pass_step od c s =
     (if ogrn od = [] then Inr (c, s)
      else
        (case organizations_cache c (ogrn od) of
           None \<Rightarrow> Inr (c, s)
         | Some organization \<Rightarrow>
             (case link_parent od organization c s of
                Inl e \<Rightarrow> Inl e
              | Inr (u, s1) \<Rightarrow> programs_loop organization (programs od) c s1)))"

fun second_pass :: "org_data list \<Rightarrow> caches \<Rightarrow> state \<Rightarrow> caches result" where
  "second_pass [] c s = Inr (c, s)"
| "second_pass (od # ods) c s =
     (case second_pass_step od c s of Inl e \<Rightarrow> Inl e | Inr (c', s') \<Rightarrow> second_pass ods c' s')"

text \<open>
  The block under \<open>with self.session_scope(app) as session\<close>. Its value says whether
  the second pass was run: the \<open>except\<close> after the first pass rolls back and returns
  from inside the block.
\<close>

definition populate_body :: "org_data list \<Rightarrow> state \<Rightarrow> bool result" where
  "populate_body organizations_data s =
     (case first_pass organizations_data empty_caches (log_append (Info ''first pass'') s) of
        Inl e \<Rightarrow> Inl e
      | Inr (c, s1) \<Rightarrow>
          (case flush s1 of
             Inl (e, s2) \<Rightarrow> Inr (False, rollback (log_append ErrorFlushFirstPass s2))
           | Inr s2 \<Rightarrow>
               (case second_pass organizations_data c
                       (log_append (Info ''second pass'')
                          (log_append (Info ''first pass done'') s2)) of
                  Inl e \<Rightarrow> Inl e
                | Inr (c', s3) \<Rightarrow> Inr (True, log_append (Info ''second pass done'') s3))))"

definition populate_db :: "org_data list \<Rightarrow> app option \<Rightarrow> state \<Rightarrow> error option \<times> state" where
  "populate_db organizations_data app_opt st =
     (let st0 = log_append (Info ''populate start'') st in
      if organizations_data = [] then (None, log_append (Info ''no data'') st0)
      else
        (case session_scope app_opt (populate_body organizations_data) st0 of
           (Inl e, st1) \<Rightarrow> (Some e, st1)
         | (Inr finished, st1) \<Rightarrow>
             (None, if finished then log_append (Info ''populate done'') st1 else st1)))"

section \<open>What a run preserves\<close>

text \<open>
  The relations used to follow a run. \<open>strip_parent\<close> forgets the one column that the
  second pass assigns. A storage grows when every table keeps its rows, in place, and
  may get new ones after them (the organizations up to \<open>parent_id\<close>). A state evolves
  when the committed storage, the number of commits and the list of raised errors are
  the same, the transaction's view has grown, primary keys of organizations stay distinct
  and the session's tokens stay well-formed (\<open>wf_session\<close>: a pending object's token is
  bound to no key yet, and every token is below the next one). \<open>res_ok\<close> says of the result of an
  operation: on an error, nothing is committed and exactly that error has been raised;
  otherwise the state has evolved. A session is clean when it has nothing to flush.
\<close>

definition strip_parent :: "EducationalOrganization \<Rightarrow> EducationalOrganization" where
  "strip_parent r = r\<lparr>eo_parent_id := None\<rparr>"

definition grows :: "db \<Rightarrow> db \<Rightarrow> bool" where
  "grows d d' \<longleftrightarrow>
     prefix (regions d) (regions d') \<and> prefix (specialty_groups d) (specialty_groups d')
     \<and> prefix (specialties d) (specialties d') \<and> prefix (programs_table d) (programs_table d')
     \<and> prefix (map strip_parent (organizations d)) (map strip_parent (organizations d'))"

fun token :: "pending \<Rightarrow> nat" where
  "token (NewRegion t name) = t"
| "token (NewSpecialtyGroup t code name) = t"
| "token (NewSpecialty t code name group_id) = t"
| "token (NewOrganization t fname sname ogrn_v inn_v addr region parent) = t"
| "token (NewProgram t organization_id specialty_id) = t"

definition wf_session :: "state \<Rightarrow> bool" where
  "wf_session s \<longleftrightarrow>
     distinct (map token (session_new s))
     \<and> (\<forall>p\<in>set (session_new s). token p < next_token s)
     \<and> (\<forall>t\<in>set (map fst (session_ident s)). t < next_token s)
     \<and> (\<forall>p\<in>set (session_new s). token p \<notin> set (map fst (session_ident s)))"

definition org_ids_distinct :: "db \<Rightarrow> bool" where
  "org_ids_distinct d \<longleftrightarrow> distinct (map eo_id (organizations d))"

definition evolves0 :: "state \<Rightarrow> state \<Rightarrow> bool" where
  "evolves0 s s' \<longleftrightarrow>
     storage s' = storage s \<and> commits s' = commits s \<and> raised s' = raised s
     \<and> grows (txn s) (txn s') \<and> prefix (log s) (log s')
     \<and> prefix (session_ident s) (session_ident s')
     \<and> (org_ids_distinct (txn s) \<longrightarrow> org_ids_distinct (txn s'))"

definition evolves :: "state \<Rightarrow> state \<Rightarrow> bool" where
  "evolves s s' \<longleftrightarrow> evolves0 s s' \<and> (wf_session s \<longrightarrow> wf_session s')"

definition res_ok :: "state \<Rightarrow> 'a result \<Rightarrow> bool" where
  "res_ok s r =
     (case r of
        Inl (e, s') \<Rightarrow> storage s' = storage s \<and> commits s' = commits s
                        \<and> raised s' = raised s @ [e] \<and> prefix (log s) (log s')
      | Inr (v, s') \<Rightarrow> evolves s s')"

definition res_ok0 :: "state \<Rightarrow> (error \<times> state) + state \<Rightarrow> bool" where
  "res_ok0 s r =
     (case r of
        Inl (e, s') \<Rightarrow> storage s' = storage s \<and> commits s' = commits s
                        \<and> raised s' = raised s @ [e] \<and> prefix (log s) (log s')
      | Inr s' \<Rightarrow> evolves s s')"

definition clean :: "state \<Rightarrow> bool" where
  "clean s \<longleftrightarrow> session_new s = [] \<and> \<not> dirty s"

definition session_start :: "state \<Rightarrow> state" where
  "session_start st = st\<lparr>txn := storage st, session_new := [], dirty := False,
                        session_ident := [], next_token := 0\<rparr>"

section \<open>What the caches hold\<close>

text \<open>
  The facts that follow a run from record to record. The key of the first organization
  with a given OGRN; a region row with a given key and name. A cache is in order when
  every object it holds has its primary key and is the row its natural key finds. The
  three outcomes of resolving a region: none, a region that has its key already, a
  region created and still pending. \<open>org_row_created\<close> describes the state after the
  creation of an organization; \<open>first_pass_inv\<close> is the invariant of the loop of the
  first pass and \<open>first_pass_frame\<close> what the loop may change.
\<close>

definition org_id_of :: "db \<Rightarrow> pystr \<Rightarrow> nat option" where
  "org_id_of d k = map_option eo_id (find (\<lambda>r. eo_ogrn r = Some k) (organizations d))"

definition region_row_named :: "db \<Rightarrow> nat \<Rightarrow> pystr \<Rightarrow> bool" where
  "region_row_named d i n \<longleftrightarrow> (\<exists>r\<in>set (regions d). r_id r = i \<and> r_name r = n)"

definition orgs_cache_ok :: "caches \<Rightarrow> state \<Rightarrow> bool" where
  "orgs_cache_ok c s \<longleftrightarrow>
     (\<forall>k h. organizations_cache c k = Some h \<longrightarrow>
        (\<exists>i. handle_id s h = Some i \<and> org_id_of (txn s) k = Some i))"

definition regions_cache_ok :: "caches \<Rightarrow> state \<Rightarrow> bool" where
  "regions_cache_ok c s \<longleftrightarrow>
     (\<forall>n h. regions_cache c n = Some h \<longrightarrow>
        (\<exists>i. handle_id s h = Some i \<and> region_row_named (txn s) i n))"

definition region_resolved :: "state \<Rightarrow> state \<Rightarrow> handle \<Rightarrow> pystr \<Rightarrow> bool" where
  "region_resolved s s' h n \<longleftrightarrow>
     (\<exists>f. s' = s\<lparr>fault := f\<rparr>) \<and> (\<exists>i. handle_id s h = Some i \<and> region_row_named (txn s) i n)"

definition region_pending :: "state \<Rightarrow> state \<Rightarrow> handle \<Rightarrow> pystr \<Rightarrow> bool" where
  "region_pending s s' h n \<longleftrightarrow>
     h = Created (next_token s) \<and> n \<notin> set (map r_name (regions (txn s)))
     \<and> (\<exists>f. s' = s\<lparr>fault := f, session_new := [NewRegion (next_token s) n],
                     next_token := Suc (next_token s)\<rparr>)"

definition region_id_of :: "state \<Rightarrow> handle option \<Rightarrow> nat option" where
  "region_id_of s ro = (case ro of None \<Rightarrow> None | Some h \<Rightarrow> handle_id s h)"

definition org_row_created ::
  "org_data \<Rightarrow> caches \<Rightarrow> state \<Rightarrow> caches \<Rightarrow> state \<Rightarrow> bool" where
  "org_row_created od c s c' s' \<longleftrightarrow>
     (\<exists>h row. organizations_cache c' = (organizations_cache c)(ogrn od \<mapsto> h)
        \<and> handle_id s' h = Some (eo_id row)
        \<and> organizations (txn s') = organizations (txn s) @ [row]
        \<and> eo_ogrn row = Some (ogrn od) \<and> eo_parent_id row = None
        \<and> (region_name od \<noteq> [] \<longrightarrow>
              (\<exists>ri. eo_region_id row = Some ri
                 \<and> region_row_named (txn s') ri (py_capitalize (py_strip (region_name od))))))"

definition org_keys :: "db \<Rightarrow> pystr set" where
  "org_keys d = {k. Some k \<in> set (map eo_ogrn (organizations d))}"

definition first_pass_inv :: "caches \<Rightarrow> state \<Rightarrow> bool" where
  "first_pass_inv c s \<longleftrightarrow>
     clean s \<and> wf_session s \<and> regions_cache_ok c s \<and> orgs_cache_ok c s"

definition first_pass_frame :: "org_data list \<Rightarrow> caches \<Rightarrow> state \<Rightarrow> caches \<Rightarrow> state \<Rightarrow> bool" where
  "first_pass_frame ods c s c' s' \<longleftrightarrow>
     evolves s s'
     \<and> dom (organizations_cache c') \<subseteq> dom (organizations_cache c) \<union> ogrn ` set ods
     \<and> (\<forall>od\<in>set ods. ogrn od \<noteq> [] \<longrightarrow> organizations_cache c' (ogrn od) \<noteq> None)
     \<and> (\<forall>k h. organizations_cache c k = Some h \<longrightarrow> organizations_cache c' k = Some h)
     \<and> org_keys (txn s') \<subseteq> org_keys (txn s) \<union> ogrn ` set ods"

definition run_start :: "state \<Rightarrow> state" where
  "run_start st = log_append (Info ''first pass'')
                    (session_start (log_append (Info ''populate start'') st))"

definition pass2_start :: "state \<Rightarrow> state" where
  "pass2_start s = log_append (Info ''second pass'') (log_append (Info ''first pass done'') s)"

definition org_with_region :: "db \<Rightarrow> pystr \<Rightarrow> pystr \<Rightarrow> bool" where
  "org_with_region d k n \<longleftrightarrow>
     (\<exists>org\<in>set (organizations d). \<exists>r\<in>set (regions d).
        eo_ogrn org = Some k \<and> eo_region_id org = Some (r_id r) \<and> r_name r = n)"

section \<open>What the second pass does to the organizations\<close>

text \<open>
  After the first pass every organization of the run is a row, and the second pass adds
  none: \<open>no_org_pending\<close> says that no pending object is an organization, \<open>keeps_orgs\<close>
  that an operation leaves the table of organizations as it is. The one write is the
  assignment of \<open>parent_id\<close> to the rows with the key of the record's organization
  (\<open>assign_parent\<close>); \<open>link_effect\<close> is what lines 479-488 do to the table for one
  record, given that the record's organization is found by its OGRN, and \<open>fold_links\<close>
  what the whole pass does. \<open>parent_linked\<close> says how a row got its parent in a run:
  from a branch record with the row's OGRN whose parent OGRN is that of an organization,
  and the parent is the key of the first organization with that OGRN.
\<close>

fun is_org :: "pending \<Rightarrow> bool" where
  "is_org (NewOrganization t fname sname ogrn_v inn_v addr region parent) = True"
| "is_org p = False"

definition no_org_pending :: "state \<Rightarrow> bool" where
  "no_org_pending s \<longleftrightarrow> (\<forall>p\<in>set (session_new s). \<not> is_org p)"

definition keeps_orgs :: "state \<Rightarrow> state \<Rightarrow> bool" where
  "keeps_orgs s s' \<longleftrightarrow> organizations (txn s') = organizations (txn s) \<and> no_org_pending s'"


definition org_id_in :: "EducationalOrganization list \<Rightarrow> pystr \<Rightarrow> nat option" where
  "org_id_in xs k = map_option eo_id (find (\<lambda>r. eo_ogrn r = Some k) xs)"

definition assign_parent ::
  "nat \<Rightarrow> nat option \<Rightarrow> EducationalOrganization list \<Rightarrow> EducationalOrganization list" where
  "assign_parent i v xs = map (\<lambda>r. if eo_id r = i then r\<lparr>eo_parent_id := v\<rparr> else r) xs"

definition link_effect ::
  "org_data \<Rightarrow> EducationalOrganization list \<Rightarrow> EducationalOrganization list" where
  "link_effect od xs =
     (case parent_ogrn od of
        None \<Rightarrow> xs
      | Some p \<Rightarrow>
          if ogrn od = [] \<or> \<not> is_branch od \<or> p = [] then xs
          else
            (case org_id_in xs (ogrn od) of
               None \<Rightarrow> xs
             | Some i \<Rightarrow>
                 (case org_id_in xs p of
                    None \<Rightarrow> xs
                  | Some pid \<Rightarrow> assign_parent i (Some pid) xs)))"

definition second_pass_inv :: "caches \<Rightarrow> state \<Rightarrow> bool" where
  "second_pass_inv c s \<longleftrightarrow> no_org_pending s \<and> orgs_cache_ok c s"

definition fold_links ::
  "org_data list \<Rightarrow> EducationalOrganization list \<Rightarrow> EducationalOrganization list" where
  "fold_links ods xs = foldl (\<lambda>xs od. link_effect od xs) xs ods"


section \<open>What a run does to the specialties\<close>

text \<open>
  A specialty row is explained by the records when one of their programs (of a record
  with an OGRN, with both codes) has the row's code, and the row's \<open>group_id\<close> is the key
  of a group row with that program's group code. A pending specialty is explained when
  it has no group yet (the storage will reject it) or its group is explained in the
  same way. \<open>specialties_inv\<close> is what every step of a run keeps: the specialty rows
  after the first \<open>n\<close> and the pending objects are explained. A group that
  \<open>specialty_groups_cache\<close> holds is a row with its code, or is pending with its code
  (\<open>group_handle\<close>); after a query all of them are rows (\<open>groups_cache_settled\<close>).
  \<open>res_holds\<close> says that a property holds of the state an operation returns.
\<close>

definition group_row_coded :: "db \<Rightarrow> nat \<Rightarrow> pystr \<Rightarrow> bool" where
  "group_row_coded d i k \<longleftrightarrow> (\<exists>g\<in>set (specialty_groups d). g_id g = i \<and> g_code g = k)"

definition program_of :: "org_data list \<Rightarrow> pystr \<Rightarrow> pystr \<Rightarrow> bool" where
  "program_of ods sc gc \<longleftrightarrow>
     (\<exists>od\<in>set ods. \<exists>pd\<in>set (programs od).
        ogrn od \<noteq> [] \<and> specialty_code pd = sc \<and> ugs_code pd = gc \<and> sc \<noteq> [] \<and> gc \<noteq> [])"

definition specialty_explained :: "org_data list \<Rightarrow> db \<Rightarrow> Specialty \<Rightarrow> bool" where
  "specialty_explained ods d r \<longleftrightarrow>
     (\<exists>gc. program_of ods (s_code r) gc \<and> group_row_coded d (s_group_id r) gc)"

fun pending_explained :: "org_data list \<Rightarrow> db \<Rightarrow> pending \<Rightarrow> bool" where
  "pending_explained ods d (NewSpecialty t code name (Some gid)) =
     (\<exists>gc. program_of ods code gc \<and> group_row_coded d gid gc)"
| "pending_explained ods d p = True"

definition rows_explained :: "org_data list \<Rightarrow> nat \<Rightarrow> db \<Rightarrow> bool" where
  "rows_explained ods n d \<longleftrightarrow> (\<forall>r\<in>set (drop n (specialties d)). specialty_explained ods d r)"

definition specialties_inv :: "org_data list \<Rightarrow> nat \<Rightarrow> state \<Rightarrow> bool" where
  "specialties_inv ods n s \<longleftrightarrow>
     rows_explained ods n (txn s) \<and> (\<forall>p\<in>set (session_new s). pending_explained ods (txn s) p)"

definition group_handle :: "state \<Rightarrow> handle \<Rightarrow> pystr \<Rightarrow> bool" where
  "group_handle s h k \<longleftrightarrow>
     (\<exists>i. handle_id s h = Some i \<and> group_row_coded (txn s) i k)
     \<or> (\<exists>t name. h = Created t \<and> NewSpecialtyGroup t k name \<in> set (session_new s))"

definition groups_cache_ok :: "caches \<Rightarrow> state \<Rightarrow> bool" where
  "groups_cache_ok c s \<longleftrightarrow>
     (\<forall>k h. specialty_groups_cache c k = Some h \<longrightarrow> group_handle s h k)"

definition res_holds :: "(state \<Rightarrow> bool) \<Rightarrow> 'a result \<Rightarrow> bool" where
  "res_holds P r = (case r of Inl e \<Rightarrow> True | Inr (v, s') \<Rightarrow> P s')"

definition group_resolved :: "state \<Rightarrow> handle \<Rightarrow> pystr \<Rightarrow> bool" where
  "group_resolved s h k \<longleftrightarrow> (\<exists>i. handle_id s h = Some i \<and> group_row_coded (txn s) i k)"

definition groups_cache_settled :: "caches \<Rightarrow> state \<Rightarrow> bool" where
  "groups_cache_settled c s \<longleftrightarrow>
     (\<forall>k h. specialty_groups_cache c k = Some h \<longrightarrow> group_resolved s h k)"

definition programs_inv :: "org_data list \<Rightarrow> nat \<Rightarrow> caches \<Rightarrow> state \<Rightarrow> bool" where
  "programs_inv ods n c s \<longleftrightarrow> wf_session s \<and> specialties_inv ods n s \<and> groups_cache_ok c s"

section \<open>The parent of a branch\<close>




section \<open>Concrete inputs\<close>

text \<open>
  The address "123456, Moskovskaya oblast', g. Podol'sk" (in Cyrillic) of the spec's
  example, the region name "Moskovskaya oblast'" with a capital M only, and the same name
  with both words capitalised.
\<close>

definition address_podolsk :: pystr where
  "address_podolsk =
     [49, 50, 51, 52, 53, 54, 44, 32, 1052, 1086, 1089, 1082, 1086, 1074, 1089, 1082, 1072,
      1103, 32, 1086, 1073, 1083, 1072, 1089, 1090, 1100, 44, 32, 1075, 46, 32, 1055, 1086,
      1076, 1086, 1083, 1100, 1089, 1082]"

definition region_moscow_oblast :: pystr where
  "region_moscow_oblast =
     [1052, 1086, 1089, 1082, 1086, 1074, 1089, 1082, 1072, 1103, 32,
      1086, 1073, 1083, 1072, 1089, 1090, 1100]"

definition region_moscow_oblast_titled :: pystr where
  "region_moscow_oblast_titled =
     [1052, 1086, 1089, 1082, 1086, 1074, 1089, 1082, 1072, 1103, 32,
      1054, 1073, 1083, 1072, 1089, 1090, 1100]"

text \<open>The region field " moskovskaya oblast'": lower case, with a leading blank.\<close>

definition region_field_lower :: pystr where
  "region_field_lower =
     [32, 1084, 1086, 1089, 1082, 1086, 1074, 1089, 1082, 1072, 1103, 32,
      1086, 1073, 1083, 1072, 1089, 1090, 1100]"

text \<open>
  A certificate of organization "1" with three programs: "A" marked \<open>IsAccredited\<close> 0,
  "B" marked 1, and "C" without the field.
\<close>

definition leaf :: "string \<Rightarrow> pystr \<Rightarrow> xml" where
  "leaf t s = Element t (Some s) []"

definition certificate_three_programs :: xml where
  "certificate_three_programs =
     Element ''Certificate'' None
       [Element ''ActualEducationOrganization'' None [leaf ''OGRN'' [49]],
        Element ''Supplements'' None
          [Element ''Supplement'' None
             [Element ''EducationalPrograms'' None
                [Element ''EducationalProgram'' None
                   [leaf ''IsAccredited'' [48], leaf ''ProgrammCode'' [65]],
                 Element ''EducationalProgram'' None
                   [leaf ''IsAccredited'' [49], leaf ''ProgrammCode'' [66]],
                 Element ''EducationalProgram'' None
                   [leaf ''ProgrammCode'' [67]]]]]]"

definition empty_db :: db where
  "empty_db = \<lparr> regions = [], specialty_groups = [], specialties = [], organizations = [],
                 programs_table = [] \<rparr>"

text \<open>A state with nothing in flight, on a storage that never fails.\<close>

definition fresh_state :: "db \<Rightarrow> state" where
  "fresh_state d = \<lparr> storage = d, txn = d, session_new = [], dirty = False,
                      session_ident = [], next_token = 0, fault = None, raised = [],
                      commits = 0, log = [] \<rparr>"

text \<open>Head organizations "1" and "3", and a program "A" of group "G".\<close>

definition org_one :: org_data where
  "org_one = \<lparr> full_name = [70], short_name = [], ogrn = [49], inn = [49], address = [],
               is_branch = False, parent_ogrn = None, region_name = [], programs = [] \<rparr>"


definition program_a :: prog_data where
  "program_a = \<lparr> specialty_code = [65], specialty_name = [66], ugs_code = [71],
                 ugs_name = [72] \<rparr>"


text \<open>
  A storage that holds the group "G" (id 5), and on it a state whose storage serves six
  round trips and fails on the seventh.
\<close>

definition db_one_group :: db where
  "db_one_group = empty_db\<lparr>specialty_groups := [\<lparr>g_id = 5, g_code = [71], g_name = []\<rparr>]\<rparr>"

definition state_failing_late :: state where
  "state_failing_late = (fresh_state db_one_group)\<lparr>fault := Some 6\<rparr>"


text \<open>Organization "1" with the region field " moskovskaya oblast'".\<close>

definition org_one_with_region :: org_data where
  "org_one_with_region = org_one\<lparr>region_name := region_field_lower\<rparr>"



section \<open>Evaluating the model\<close>

lemmas parser_defs =
  parse_certificate_def parse_programs_def parse_supplement_def parse_program_def
  xml_find_def xml_findall_def xml_findtext_def get_text_def py_strip_def py_isspace_cp_def

lemmas run_defs =
  populate_db_def session_scope_def populate_body_def first_pass_step_def
  second_pass_step_def program_step_def resolve_group_def resolve_specialty_def
  log_append_def empty_caches_def query_first_def flush_def storage_call_def
  resolve_region_def cached_region_def get_or_create_Region_def
  get_or_create_SpecialtyGroup_def get_or_create_Specialty_def session_add_def commit_def
  rollback_def link_parent_def find_parent_def set_parent_id_def handle_id_def next_id_def
  raise_error_def

lemma region_field_lower_strip: "py_strip region_field_lower = tl region_field_lower"
  by (simp add: region_field_lower_def py_strip_def py_isspace_cp_def)

lemma region_field_lower_capitalize:
  "py_capitalize (py_strip region_field_lower) = region_moscow_oblast"
  unfolding region_field_lower_strip
  by (simp add: region_field_lower_def region_moscow_oblast_def py_capitalize_def
      py_upper_cp_def py_lower_cp_def)

lemma region_field_lower_title:
  "spec_title_cased (py_strip region_field_lower) = region_moscow_oblast_titled"
  unfolding region_field_lower_strip
  by (simp add: region_field_lower_def region_moscow_oblast_titled_def spec_title_cased_def
      py_upper_cp_def py_lower_cp_def py_iscased_cp_def)

lemma region_field_lower_nonempty: "region_field_lower \<noteq> []"
  by (simp add: region_field_lower_def)

lemma region_field_lower_in_alphabet: "in_alphabet region_field_lower"
  by (simp add: in_alphabet_def region_field_lower_def)

lemma extract_region_empty: "extract_region_from_address [] = (None, [WarnRegionNotExtracted []])"
  by (simp add: extract_region_from_address_def possible_regions_def py_lower_def
      py_split1_def)

section \<open>The parser keeps the programs marked not accredited\<close>

text \<open>
  C1. A program element whose \<open>IsAccredited\<close> field marks it as not accredited (text
  "0") should be left out of the record's program list. The parser compares the field
  with "0" and skips the program when the comparison fails, so on the certificate with
  the programs "A" (marked 0), "B" (marked 1) and "C" (unmarked) the record's list is
  exactly the program "A": the one marked not accredited is kept, the two others are
  dropped.
\<close>

theorem not_accredited_program_is_kept:
  "map specialty_code (programs (the (fst (parse_certificate certificate_three_programs))))
     = [[65]]"
  by (simp add: certificate_three_programs_def leaf_def parser_defs)

section \<open>The address fallback\<close>

text \<open>
  C8. The address fallback maps the address "123456, Moskovskaya oblast', g. Podol'sk"
  to the region name "Moskovskaya oblast'" (so to a name that contains it), and every
  address that contains none of the known region names (in lower case) and no comma to
  no region.
\<close>

theorem region_fallback_address:
  "fst (extract_region_from_address address_podolsk) = Some region_moscow_oblast
   \<and> py_contains region_moscow_oblast region_moscow_oblast
   \<and> (\<forall>a. (\<forall>r\<in>set possible_regions. \<not> py_contains (py_lower a) r) \<and> 44 \<notin> set a
          \<longrightarrow> fst (extract_region_from_address a) = None)"
proof (intro conjI allI impI)
  show "fst (extract_region_from_address address_podolsk) = Some region_moscow_oblast"
    by (simp add: extract_region_from_address_def address_podolsk_def possible_regions_def
        region_moscow_oblast_def py_lower_def py_lower_cp_def py_capitalize_def
        py_upper_cp_def)
next
  show "py_contains region_moscow_oblast region_moscow_oblast"
    by (simp add: region_moscow_oblast_def)
next
  fix a
  assume h: "(\<forall>r\<in>set possible_regions. \<not> py_contains (py_lower a) r) \<and> 44 \<notin> set a"
  then have "find (\<lambda>r. py_contains (py_lower a) r) possible_regions = None"
    by (simp add: find_None_iff)
  with h show "fst (extract_region_from_address a) = None"
    by (simp add: extract_region_from_address_def py_split1_def)
qed

theorem region_fallback_address_witness:
  "find (\<lambda>r. py_contains (py_lower [97, 98, 99]) r) possible_regions = None
   \<and> 44 \<notin> set [97, 98, 99::nat]
   \<and> fst (extract_region_from_address [97, 98, 99]) = None"
proof -
  have h: "find (\<lambda>r. py_contains (py_lower [97, 98, 99]) r) possible_regions = None"
    by (simp add: possible_regions_def py_lower_def py_lower_cp_def)
  then have "(\<forall>r\<in>set possible_regions. \<not> py_contains (py_lower [97, 98, 99]) r)
           \<and> 44 \<notin> set [97, 98, 99::nat]"
    by (simp add: find_None_iff)
  moreover from region_fallback_address have
    "(\<forall>r\<in>set possible_regions. \<not> py_contains (py_lower [97, 98, 99]) r)
       \<and> 44 \<notin> set [97, 98, 99::nat]
     \<longrightarrow> fst (extract_region_from_address [97, 98, 99]) = None"
    by blast
  ultimately show ?thesis using h by blast
qed

section \<open>No records, no session\<close>

text \<open>
  C10. \<open>_populate_db\<close> called with an empty list of records returns normally, with or
  without an application: nothing of the state changes but the log (no round trip to the
  storage, no commit, no session). Called without an application and with at least one
  record, it raises the precondition error.
\<close>

theorem populate_db_without_records:
  "populate_db [] app_opt st
     = (None, st\<lparr>log := log st @ [Info ''populate start'', Info ''no data'']\<rparr>)
   \<and> (\<forall>ods. ods \<noteq> [] \<longrightarrow>
          populate_db ods None st
            = (Some RuntimeError, st\<lparr>log := log st @ [Info ''populate start'']\<rparr>))"
  by (simp add: populate_db_def log_append_def session_scope_def)

theorem populate_db_without_records_witness:
  "[org_one] \<noteq> []
   \<and> populate_db [org_one] None (fresh_state empty_db)
       = (Some RuntimeError, (fresh_state empty_db)\<lparr>log := [Info ''populate start'']\<rparr>)"
proof -
  have "populate_db [org_one] None (fresh_state empty_db)
          = (Some RuntimeError,
             (fresh_state empty_db)\<lparr>log := log (fresh_state empty_db) @ [Info ''populate start'']\<rparr>)"
    using populate_db_without_records [of None "fresh_state empty_db"] by blast
  then show ?thesis by (simp add: fresh_state_def)
qed

section \<open>A specialty of a group created in the same step\<close>

text \<open>
  A run that has to create a group and a specialty of it for the same program. On an
  empty storage, with one organization that has one program (specialty "A", group "G"),
  the group is created and still pending when \<open>group.id\<close> is read for the specialty's
  \<open>group_id\<close>: the specialty is built with no group, its insertion violates the NOT NULL
  constraint at the next flush, and the run ends with that error and an unchanged
  storage. No specialty row comes out of such a run.
\<close>

lemma specialty_of_new_group_is_rejected:
  "fst (populate_db [org_one\<lparr>programs := [program_a]\<rparr>] (Some FlaskApp) (fresh_state empty_db))
     = Some IntegrityError
   \<and> storage (snd (populate_db [org_one\<lparr>programs := [program_a]\<rparr>] (Some FlaskApp)
                     (fresh_state empty_db))) = empty_db"
  by (simp add: run_defs org_one_def program_a_def fresh_state_def empty_db_def
      extract_region_empty)

section \<open>Every operation evolves the state or raises\<close>

lemma grows_refl [simp]: "grows d d"
  by (simp add: grows_def)

lemma grows_trans: "grows a b \<Longrightarrow> grows b c \<Longrightarrow> grows a c"
  unfolding grows_def by (meson prefix_order.order_trans)

lemma evolves0_refl [simp]: "evolves0 s s"
  by (simp add: evolves0_def)

lemma evolves0_trans:
  assumes "evolves0 a b" and "evolves0 b c"
  shows "evolves0 a c"
proof -
  from assms have "grows (txn a) (txn c)"
    by (auto simp: evolves0_def intro: grows_trans)
  moreover from assms have "prefix (log a) (log c)"
    by (auto simp: evolves0_def intro: prefix_order.order_trans)
  moreover from assms have "prefix (session_ident a) (session_ident c)"
    by (auto simp: evolves0_def intro: prefix_order.order_trans)
  ultimately show ?thesis using assms by (simp add: evolves0_def)
qed

lemma evolves_refl [simp]: "evolves s s"
  by (simp add: evolves_def)

lemma evolves_trans: "evolves a b \<Longrightarrow> evolves b c \<Longrightarrow> evolves a c"
  by (auto simp: evolves_def intro: evolves0_trans)

lemma evolves_fields:
  "evolves s s' \<Longrightarrow>
     storage s' = storage s \<and> commits s' = commits s \<and> raised s' = raised s
     \<and> grows (txn s) (txn s') \<and> prefix (log s) (log s')
     \<and> prefix (session_ident s) (session_ident s')"
  by (simp add: evolves_def evolves0_def)

lemma res_ok_bind:
  assumes "res_ok s m" and "\<And>v s1. m = Inr (v, s1) \<Longrightarrow> res_ok s1 (f (v, s1))"
  shows "res_ok s (case m of Inl e \<Rightarrow> Inl e | Inr x \<Rightarrow> f x)"
proof (cases m)
  case (Inl a)
  with assms(1) show ?thesis by (simp add: res_ok_def)
next
  case (Inr b)
  obtain v s1 where b: "b = (v, s1)" by (cases b)
  from assms(1) Inr b have e: "evolves s s1" by (simp add: res_ok_def)
  from assms(2) Inr b have r: "res_ok s1 (f (v, s1))" by simp
  show ?thesis
  proof (cases "f (v, s1)")
    case (Inl a)
    then show ?thesis using e r Inr b
      by (auto simp: res_ok_def split: prod.splits dest!: evolves_fields dest: prefix_order.order_trans)
  next
    case (Inr c)
    then show ?thesis using e r \<open>m = Inr b\<close> b
      by (auto simp: res_ok_def split: prod.splits intro: evolves_trans)
  qed
qed

lemma res_ok0_bind:
  assumes "res_ok0 s m" and "\<And>s1. m = Inr s1 \<Longrightarrow> res_ok s1 (f s1)"
  shows "res_ok s (case m of Inl e \<Rightarrow> Inl e | Inr x \<Rightarrow> f x)"
proof (cases m)
  case (Inl a)
  with assms(1) show ?thesis by (simp add: res_ok_def res_ok0_def)
next
  case (Inr s1)
  from assms(1) Inr have e: "evolves s s1" by (simp add: res_ok0_def)
  from assms(2) Inr have r: "res_ok s1 (f s1)" by simp
  show ?thesis
  proof (cases "f s1")
    case (Inl a)
    then show ?thesis using e r Inr
      by (auto simp: res_ok_def split: prod.splits dest!: evolves_fields dest: prefix_order.order_trans)
  next
    case (Inr c)
    then show ?thesis using e r \<open>m = Inr s1\<close>
      by (auto simp: res_ok_def split: prod.splits intro: evolves_trans)
  qed
qed

lemma res_ok0_bind0:
  assumes "res_ok0 s m" and "\<And>s1. m = Inr s1 \<Longrightarrow> res_ok0 s1 (f s1)"
  shows "res_ok0 s (case m of Inl e \<Rightarrow> Inl e | Inr x \<Rightarrow> f x)"
proof (cases m)
  case (Inl a)
  with assms(1) show ?thesis by (simp add: res_ok0_def)
next
  case (Inr s1)
  from assms(1) Inr have e: "evolves s s1" by (simp add: res_ok0_def)
  from assms(2) Inr have r: "res_ok0 s1 (f s1)" by simp
  show ?thesis
  proof (cases "f s1")
    case (Inl a)
    then show ?thesis using e r Inr
      by (auto simp: res_ok0_def split: prod.splits dest!: evolves_fields dest: prefix_order.order_trans)
  next
    case (Inr c)
    then show ?thesis using e r \<open>m = Inr s1\<close>
      by (auto simp: res_ok0_def split: prod.splits intro: evolves_trans)
  qed
qed

lemma res_ok_Inr: "evolves s s' \<Longrightarrow> res_ok s (Inr (v, s'))"
  by (simp add: res_ok_def)

lemma storage_call_ok: "res_ok0 s (storage_call s)"
  by (auto simp: res_ok0_def storage_call_def raise_error_def evolves_def evolves0_def
      wf_session_def split: option.splits nat.splits)

lemma fold_max_ge_init: "(m::nat) \<le> fold max ids m"
proof (induction ids arbitrary: m)
  case Nil
  show ?case by simp
next
  case (Cons a ids)
  have "m \<le> max a m" by simp
  also have "\<dots> \<le> fold max ids (max a m)" by (rule Cons.IH)
  finally show ?case by simp
qed

lemma fold_max_ge_all: "x \<in> set ids \<Longrightarrow> x \<le> fold max ids (m::nat)"
proof (induction ids arbitrary: m)
  case Nil
  then show ?case by simp
next
  case (Cons a ids)
  show ?case
  proof (cases "x = a")
    case True
    have "a \<le> max a m" by simp
    also have "\<dots> \<le> fold max ids (max a m)" by (rule fold_max_ge_init)
    finally show ?thesis using True by simp
  next
    case False
    with Cons.prems have "x \<in> set ids" by simp
    from Cons.IH[OF this] show ?thesis by simp
  qed
qed

lemma next_id_fresh: "next_id ids \<notin> set ids"
proof
  assume "next_id ids \<in> set ids"
  from fold_max_ge_all[OF this, of 0] show False by (simp add: next_id_def)
qed

lemma next_id_fresh_org:
  "x \<in> set xs \<Longrightarrow> next_id (map eo_id xs) = eo_id x \<Longrightarrow> False"
  using next_id_fresh[of "map eo_id xs"] by force

lemma insert_pending_Inr:
  assumes "insert_pending p s = Inr s'"
  shows "evolves0 s s' \<and> session_new s' = session_new s \<and> next_token s' = next_token s
     \<and> dirty s' = dirty s \<and> fault s' = fault s
     \<and> map fst (session_ident s') = map fst (session_ident s) @ [token p]"
proof (cases p)
  case (NewRegion t n)
  with assms show ?thesis
    by (simp add: raise_error_def Let_def split: if_splits)
       (auto simp: evolves0_def grows_def org_ids_distinct_def)
next
  case (NewSpecialtyGroup t c n)
  with assms show ?thesis
    by (simp add: raise_error_def Let_def split: if_splits)
       (auto simp: evolves0_def grows_def org_ids_distinct_def)
next
  case (NewSpecialty t c n g)
  with assms show ?thesis
    by (simp add: raise_error_def Let_def split: if_splits option.splits)
       (auto simp: evolves0_def grows_def org_ids_distinct_def)
next
  case (NewOrganization t fn sn og i a r pa)
  with assms show ?thesis
    by (simp add: raise_error_def Let_def split: if_splits)
       (auto simp: evolves0_def grows_def org_ids_distinct_def dest: next_id_fresh_org)
next
  case (NewProgram t oi si)
  with assms show ?thesis
    by (simp add: raise_error_def Let_def split: if_splits option.splits)
       (auto simp: evolves0_def grows_def org_ids_distinct_def)
qed

lemma insert_pending_Inl:
  assumes "insert_pending p s = Inl (e, s')"
  shows "storage s' = storage s \<and> commits s' = commits s \<and> raised s' = raised s @ [e]
     \<and> log s' = log s"
proof (cases p)
  case (NewRegion t n)
  with assms show ?thesis
    by (auto simp: raise_error_def Let_def split: if_splits)
next
  case (NewSpecialtyGroup t c n)
  with assms show ?thesis
    by (auto simp: raise_error_def Let_def split: if_splits)
next
  case (NewSpecialty t c n g)
  with assms show ?thesis
    by (auto simp: raise_error_def Let_def split: if_splits option.splits)
next
  case (NewOrganization t fn sn og i a r pa)
  with assms show ?thesis
    by (simp add: raise_error_def Let_def split: if_splits) auto
next
  case (NewProgram t oi si)
  with assms show ?thesis
    by (auto simp: raise_error_def Let_def split: if_splits option.splits)
qed

lemmas insert_pending_result = insert_pending_Inr insert_pending_Inl

lemma insert_all_result:
  "insert_all ps s = Inr s' \<Longrightarrow>
     evolves0 s s' \<and> session_new s' = session_new s \<and> next_token s' = next_token s
     \<and> dirty s' = dirty s \<and> fault s' = fault s
     \<and> map fst (session_ident s') = map fst (session_ident s) @ map token ps"
  "insert_all ps s = Inl (e, s') \<Longrightarrow>
     storage s' = storage s \<and> commits s' = commits s \<and> raised s' = raised s @ [e]
     \<and> prefix (log s) (log s')"
proof (induction ps arbitrary: s)
  case Nil
  { case 1 then show ?case by simp }
  { case 2 then show ?case by simp }
next
  case (Cons p ps)
  { case 1
    then obtain s1 where a: "insert_pending p s = Inr s1" and b: "insert_all ps s1 = Inr s'"
      by (auto split: sum.splits)
    from insert_pending_result(1)[OF a] Cons.IH(1)[OF b] show ?case
      by (auto intro: evolves0_trans) }
  { case 2
    show ?case
    proof (cases "insert_pending p s")
      case (Inl x)
      with 2 have "insert_pending p s = Inl (e, s')" by simp
      from insert_pending_result(2)[OF this] show ?thesis by simp
    next
      case (Inr s1)
      with 2 have b: "insert_all ps s1 = Inl (e, s')" by simp
      from insert_pending_result(1)[OF Inr] Cons.IH(2)[OF b] show ?thesis
        by (auto simp: evolves0_def dest: prefix_order.order_trans)
    qed }
qed

lemma storage_call_Inr: "storage_call s = Inr s' \<Longrightarrow> \<exists>f. s' = s\<lparr>fault := f\<rparr>"
proof (cases "fault s")
  case None
  assume "storage_call s = Inr s'"
  with None have "s' = s\<lparr>fault := None\<rparr>" by (simp add: storage_call_def)
  then show ?thesis by blast
next
  case (Some n)
  assume "storage_call s = Inr s'"
  with Some show ?thesis
    by (cases n) (auto simp: storage_call_def raise_error_def)
qed

lemma storage_call_Inl:
  "storage_call s = Inl (e, s') \<Longrightarrow> e = OperationalError \<and> s' = s\<lparr>raised := raised s @ [e]\<rparr>"
  by (auto simp: storage_call_def raise_error_def split: option.splits nat.splits)

lemma flush_ok: "res_ok0 s (flush s)"
proof (cases "session_new s = [] \<and> \<not> dirty s")
  case True
  then show ?thesis by (simp add: flush_def res_ok0_def)
next
  case False
  show ?thesis
  proof (cases "storage_call s")
    case (Inl x)
    obtain e s' where x: "x = (e, s')" by (cases x)
    from storage_call_Inl[of s e s'] Inl x False show ?thesis
      by (auto simp: flush_def res_ok0_def)
  next
    case (Inr s1)
    from storage_call_Inr[OF Inr] obtain f where s1: "s1 = s\<lparr>fault := f\<rparr>" by blast
    show ?thesis
    proof (cases "insert_all (session_new s1) s1")
      case (Inl x)
      obtain e s' where x: "x = (e, s')" by (cases x)
      from insert_all_result(2)[of "session_new s1" s1 e s'] Inl x Inr False s1 show ?thesis
        by (auto simp: flush_def res_ok0_def)
    next
      case (Inr s2)
      from insert_all_result(1)[OF Inr] s1
      have e0: "evolves0 s1 s2" and n: "next_token s2 = next_token s"
        and i: "map fst (session_ident s2) = map fst (session_ident s) @ map token (session_new s)"
        by simp_all
      have "evolves0 s s1" using s1 by (simp add: evolves0_def)
      from this e0 have "evolves0 s s2" by (rule evolves0_trans)
      then have "evolves0 s (s2\<lparr>session_new := [], dirty := False\<rparr>)"
        by (simp add: evolves0_def)
      moreover have "wf_session s \<longrightarrow> wf_session (s2\<lparr>session_new := [], dirty := False\<rparr>)"
        using n i by (auto simp: wf_session_def)
      ultimately show ?thesis using Inr \<open>storage_call s = Inr s1\<close> False
        by (auto simp: flush_def res_ok0_def evolves_def)
    qed
  qed
qed

lemma query_first_ok: "res_ok s (query_first tbl P s)"
  unfolding query_first_def
  apply (rule res_ok0_bind[OF flush_ok])
  apply (rule res_ok0_bind[OF storage_call_ok])
  apply (simp add: res_ok_def)
  done

lemma session_add_evolves_gen:
  assumes "\<And>t. token (mk t) = t" and "session_add mk s = (h, s')"
  shows "evolves s s'"
proof -
  from assms(2) have s': "s' = s\<lparr>session_new := session_new s @ [mk (next_token s)],
                               next_token := Suc (next_token s)\<rparr>"
    by (simp add: session_add_def)
  have "evolves0 s s'" unfolding s' by (simp add: evolves0_def)
  moreover have "wf_session s \<longrightarrow> wf_session s'"
    unfolding s' wf_session_def using assms(1) by (auto simp: less_Suc_eq)
  ultimately show ?thesis by (simp add: evolves_def)
qed

lemma session_add_evolves:
  "session_add (\<lambda>t. NewRegion t n) s = (h, s') \<Longrightarrow> evolves s s'"
  "session_add (\<lambda>t. NewSpecialtyGroup t c n) s = (h, s') \<Longrightarrow> evolves s s'"
  "session_add (\<lambda>t. NewSpecialty t c n g) s = (h, s') \<Longrightarrow> evolves s s'"
  "session_add (\<lambda>t. NewOrganization t fn sn og i a r pa) s = (h, s') \<Longrightarrow> evolves s s'"
  "session_add (\<lambda>t. NewProgram t oi si) s = (h, s') \<Longrightarrow> evolves s s'"
  by (erule session_add_evolves_gen[rotated], simp)+

lemma log_append_evolves [simp]: "evolves s (log_append e s)"
  by (simp add: log_append_def evolves_def evolves0_def wf_session_def)

lemma map_strip_parent_update:
  "strip_parent \<circ> (\<lambda>r. if P r then r\<lparr>eo_parent_id := v\<rparr> else r) = strip_parent"
  by (auto simp: fun_eq_iff strip_parent_def)

lemma token_set_pending_parent [simp]: "token (set_pending_parent t v p) = token p"
  by (cases p) auto

lemma token_set_pending_parent_comp [simp]: "token \<circ> set_pending_parent t v = token"
  by (simp add: fun_eq_iff)

lemma eo_id_update_comp:
  "eo_id \<circ> (\<lambda>r. if P r then r\<lparr>eo_parent_id := v\<rparr> else r) = eo_id"
  by (auto simp: fun_eq_iff)

lemma set_parent_id_evolves [simp]: "evolves s (set_parent_id h v s)"
  by (auto simp: set_parent_id_def evolves_def evolves0_def grows_def map_strip_parent_update
      wf_session_def org_ids_distinct_def eo_id_update_comp image_image
      split: option.splits handle.splits)

lemma get_or_create_Region_ok: "res_ok s (get_or_create_Region name s)"
  unfolding get_or_create_Region_def
  apply (rule res_ok_bind[OF query_first_ok])
  apply (auto simp: res_ok_def split: option.splits prod.splits dest: session_add_evolves)
  done

lemma get_or_create_SpecialtyGroup_ok: "res_ok s (get_or_create_SpecialtyGroup code name s)"
  unfolding get_or_create_SpecialtyGroup_def
  apply (rule res_ok_bind[OF query_first_ok])
  apply (auto simp: res_ok_def split: option.splits prod.splits dest: session_add_evolves)
  done

lemma get_or_create_Specialty_ok: "res_ok s (get_or_create_Specialty code name g s)"
  unfolding get_or_create_Specialty_def
  apply (rule res_ok_bind[OF query_first_ok])
  apply (auto simp: res_ok_def split: option.splits prod.splits dest: session_add_evolves)
  done

lemma cached_region_ok: "res_ok s (cached_region name c s)"
  unfolding cached_region_def
  apply (cases "regions_cache c name")
   apply simp
   apply (rule res_ok_bind[OF get_or_create_Region_ok])
   apply (auto simp: res_ok_def)
  done

lemma log_extend_evolves: "evolves s (s\<lparr>log := log s @ w\<rparr>)"
  by (simp add: evolves_def evolves0_def wf_session_def)

lemma res_ok_pre: "evolves s s0 \<Longrightarrow> res_ok s0 r \<Longrightarrow> res_ok s r"
proof (cases r)
  case (Inl a)
  assume "evolves s s0" "res_ok s0 r"
  with Inl show ?thesis
    by (cases a) (auto simp: res_ok_def dest!: evolves_fields intro: prefix_order.order_trans)
next
  case (Inr b)
  assume "evolves s s0" "res_ok s0 r"
  with Inr show ?thesis
    by (cases b) (auto simp: res_ok_def intro: evolves_trans)
qed

lemma resolve_region_ok: "res_ok s (resolve_region od c s)"
proof (cases "region_name od = []")
  case False
  then show ?thesis unfolding resolve_region_def
    apply simp
    apply (rule res_ok_bind[OF cached_region_ok])
    apply (auto simp: res_ok_def)
    done
next
  case True
  obtain f w where fw: "extract_region_from_address (address od) = (f, w)" by fastforce
  have e: "evolves s (s\<lparr>log := log s @ w\<rparr>)" by (rule log_extend_evolves)
  have "res_ok (s\<lparr>log := log s @ w\<rparr>) (resolve_region od c s)"
    unfolding resolve_region_def using True fw
    apply (simp add: Let_def split: option.splits)
    apply (intro conjI impI allI)
      apply (simp add: res_ok_def)
     apply (simp add: res_ok_def)
    apply (rule res_ok_bind[OF cached_region_ok])
    apply (auto simp: res_ok_def)
    done
  then show ?thesis using e by (rule res_ok_pre[rotated])
qed

lemma first_pass_step_ok: "res_ok s (first_pass_step od c s)"
proof (cases "ogrn od = [] \<or> organizations_cache c (ogrn od) \<noteq> None")
  case True
  then show ?thesis by (auto simp: first_pass_step_def res_ok_def)
next
  case False
  then show ?thesis
    unfolding first_pass_step_def
    apply simp
    apply (rule res_ok_bind[OF query_first_ok])
    apply (simp split: option.splits)
    apply (intro conjI impI allI)
     apply (rule res_ok_bind[OF resolve_region_ok])
     apply (clarsimp split: prod.splits)
     apply (rule res_ok_pre[OF session_add_evolves(4)], assumption)
     apply (rule res_ok0_bind[OF flush_ok])
     apply (simp add: res_ok_def)
    apply (simp add: res_ok_def)
    done
qed

lemma first_pass_ok: "res_ok s (first_pass ods c s)"
proof (induction ods arbitrary: c s)
  case Nil
  then show ?case by (simp add: res_ok_def)
next
  case (Cons od ods)
  show ?case unfolding first_pass.simps
    by (rule res_ok_bind[OF first_pass_step_ok]) (simp add: Cons.IH)
qed

lemma find_parent_ok: "res_ok s (find_parent p c s)"
  unfolding find_parent_def
  apply (cases "organizations_cache c p")
   apply simp
   apply (rule res_ok_bind[OF query_first_ok])
   apply (auto simp: res_ok_def)
  done

lemma link_parent_ok: "res_ok s (link_parent od h c s)"
proof (cases "parent_ogrn od")
  case None
  then show ?thesis by (simp add: link_parent_def res_ok_def)
next
  case (Some p)
  show ?thesis
  proof (cases "\<not> is_branch od \<or> p = []")
    case True
    with Some show ?thesis by (auto simp: link_parent_def res_ok_def)
  next
    case False
    with Some show ?thesis
      unfolding link_parent_def
      apply simp
      apply (rule res_ok_bind[OF find_parent_ok])
      apply (auto simp: res_ok_def split: option.splits)
      done
  qed
qed

lemma resolve_group_ok: "res_ok s (resolve_group pd c s)"
  unfolding resolve_group_def
  apply (cases "specialty_groups_cache c (ugs_code pd)")
   apply simp
   apply (rule res_ok_bind[OF get_or_create_SpecialtyGroup_ok])
   apply (auto simp: res_ok_def)
  done

lemma resolve_specialty_ok: "res_ok s (resolve_specialty pd g c s)"
  unfolding resolve_specialty_def
  apply (cases "specialties_cache c (specialty_code pd)")
   apply simp
   apply (rule res_ok_bind[OF get_or_create_Specialty_ok])
   apply (auto simp: res_ok_def)
  done

lemma program_step_ok: "res_ok s (program_step h pd c s)"
proof (cases "specialty_code pd = [] \<or> ugs_code pd = []")
  case True
  then show ?thesis by (auto simp: program_step_def res_ok_def)
next
  case False
  then show ?thesis
    unfolding program_step_def
    apply simp
    apply (rule res_ok_bind[OF resolve_group_ok])
    apply (clarsimp)
    apply (rule res_ok_bind[OF resolve_specialty_ok])
    apply (clarsimp simp: Let_def)
    apply (rule res_ok_bind[OF query_first_ok])
    apply (auto simp: res_ok_def split: option.splits intro: session_add_evolves(5)[OF surjective_pairing])
    done
qed

lemma programs_loop_ok: "res_ok s (programs_loop h pds c s)"
proof (induction pds arbitrary: c s)
  case Nil
  then show ?case by (simp add: res_ok_def)
next
  case (Cons pd pds)
  show ?case unfolding programs_loop.simps
    by (rule res_ok_bind[OF program_step_ok]) (simp add: Cons.IH)
qed

lemma second_pass_step_ok: "res_ok s (second_pass_step od c s)"
proof (cases "ogrn od = [] \<or> organizations_cache c (ogrn od) = None")
  case True
  then show ?thesis by (auto simp: second_pass_step_def res_ok_def)
next
  case False
  then obtain h where "organizations_cache c (ogrn od) = Some h" by auto
  with False show ?thesis
    unfolding second_pass_step_def
    apply simp
    apply (rule res_ok_bind[OF link_parent_ok])
    apply (simp add: programs_loop_ok)
    done
qed

lemma second_pass_ok: "res_ok s (second_pass ods c s)"
proof (induction ods arbitrary: c s)
  case Nil
  then show ?case by (simp add: res_ok_def)
next
  case (Cons od ods)
  show ?case unfolding second_pass.simps
    by (rule res_ok_bind[OF second_pass_step_ok]) (simp add: Cons.IH)
qed

lemma storage_call_fields:
  "storage_call s = Inr s' \<Longrightarrow>
     session_new s' = session_new s \<and> dirty s' = dirty s \<and> txn s' = txn s
     \<and> session_ident s' = session_ident s \<and> next_token s' = next_token s \<and> log s' = log s
     \<and> storage s' = storage s"
  by (auto simp: storage_call_def raise_error_def split: option.splits nat.splits)

lemma flush_clean: "flush s = Inr s' \<Longrightarrow> clean s'"
  by (auto simp: flush_def clean_def split: if_splits sum.splits)

lemma flush_of_clean: "clean s \<Longrightarrow> flush s = Inr s"
  by (simp add: flush_def clean_def)

lemma query_first_clean: "query_first tbl P s = Inr (r, s') \<Longrightarrow> clean s'"
  by (auto simp: query_first_def clean_def split: sum.splits
      dest!: flush_clean storage_call_fields)

lemma first_pass_step_clean:
  "clean s \<Longrightarrow> first_pass_step od c s = Inr (c', s') \<Longrightarrow> clean s'"
  by (auto simp: first_pass_step_def log_append_def clean_def
      split: if_splits sum.splits option.splits prod.splits
      dest!: flush_clean query_first_clean)

lemma first_pass_clean:
  "clean s \<Longrightarrow> first_pass ods c s = Inr (c', s') \<Longrightarrow> clean s'"
proof (induction ods arbitrary: c s)
  case Nil
  then show ?case by simp
next
  case (Cons od ods)
  then show ?case
    by (auto split: sum.splits dest: first_pass_step_clean)
qed

lemma populate_body_ok:
  assumes "clean s"
  shows "res_ok s (populate_body ods s)"
proof -
  let ?s0 = "log_append (Info ''first pass'') s"
  have c0: "clean ?s0" using assms by (simp add: clean_def log_append_def)
  have "res_ok ?s0 (populate_body ods s)"
    unfolding populate_body_def
  proof (rule res_ok_bind[OF first_pass_ok], clarsimp)
    fix c s1
    assume fp: "first_pass ods empty_caches ?s0 = Inr (c, s1)"
    from first_pass_clean[OF c0 fp] have "flush s1 = Inr s1" by (rule flush_of_clean)
    moreover have "res_ok s1
        (case second_pass ods c (log_append (Info ''second pass'')
                (log_append (Info ''first pass done'') s1)) of
           Inl e \<Rightarrow> Inl e
         | Inr (c', s3) \<Rightarrow> Inr (True, log_append (Info ''second pass done'') s3))"
      apply (rule res_ok_pre[of _ "log_append (Info ''second pass'')
                (log_append (Info ''first pass done'') s1)"])
       apply (rule evolves_trans[OF log_append_evolves log_append_evolves])
      apply (rule res_ok_bind[OF second_pass_ok])
      apply (auto simp: res_ok_def)
      done
    ultimately show "res_ok s1
        (case flush s1 of
           Inl (e, s2) \<Rightarrow> Inr (False, rollback (log_append ErrorFlushFirstPass s2))
         | Inr s2 \<Rightarrow>
            (case second_pass ods c (log_append (Info ''second pass'')
                (log_append (Info ''first pass done'') s2)) of
               Inl e \<Rightarrow> Inl e
             | Inr (c', s3) \<Rightarrow> Inr (True, log_append (Info ''second pass done'') s3)))"
      by simp
  qed
  then show ?thesis by (rule res_ok_pre[OF log_append_evolves])
qed

lemma commit_result:
  "commit s = Inl (e, s') \<Longrightarrow>
     storage s' = storage s \<and> commits s' = commits s \<and> raised s' = raised s @ [e]"
  "commit s = Inr s' \<Longrightarrow>
     storage s' = txn s' \<and> commits s' = Suc (commits s) \<and> raised s' = raised s
     \<and> grows (txn s) (txn s') \<and> clean s' \<and> prefix (log s) (log s')"
proof -
  have r: "res_ok0 s (case flush s of Inl e \<Rightarrow> Inl e | Inr s1 \<Rightarrow> storage_call s1)"
    by (rule res_ok0_bind0[OF flush_ok]) (rule storage_call_ok)
  show "commit s = Inl (e, s') \<Longrightarrow>
     storage s' = storage s \<and> commits s' = commits s \<and> raised s' = raised s @ [e]"
    using r by (auto simp: commit_def res_ok0_def split: sum.splits)
  show "commit s = Inr s' \<Longrightarrow>
     storage s' = txn s' \<and> commits s' = Suc (commits s) \<and> raised s' = raised s
     \<and> grows (txn s) (txn s') \<and> clean s' \<and> prefix (log s) (log s')"
    using r by (auto simp: commit_def res_ok0_def clean_def split: sum.splits
        dest!: flush_clean storage_call_fields evolves_fields)
qed

lemma session_scope_unfold:
  "session_scope (Some a) body st =
     (case body (session_start st) of
        Inl (e, s) \<Rightarrow> (Inl e, rollback (s\<lparr>log := log s @ [ErrorDatabase]\<rparr>))
      | Inr (v, s) \<Rightarrow>
          (case commit s of
             Inl (e, s') \<Rightarrow> (Inl e, rollback (s'\<lparr>log := log s' @ [ErrorDatabase]\<rparr>))
           | Inr s' \<Rightarrow> (Inr v, s')))"
  by (simp add: session_scope_def session_start_def)

lemma session_scope_result:
  assumes "res_ok (session_start st) (body (session_start st))"
  shows "case session_scope (Some a) body st of
           (Inl e, st') \<Rightarrow> storage st' = storage st \<and> commits st' = commits st
              \<and> raised st' = raised st @ [e] \<and> txn st' = storage st \<and> clean st'
         | (Inr v, st') \<Rightarrow> raised st' = raised st \<and> commits st' = Suc (commits st)
              \<and> storage st' = txn st' \<and> grows (storage st) (storage st') \<and> clean st'"
proof (cases "body (session_start st)")
  case (Inl a)
  then show ?thesis using assms
    by (cases a) (auto simp: session_scope_unfold res_ok_def rollback_def session_start_def clean_def)
next
  case (Inr b)
  obtain v s where b: "b = (v, s)" by (cases b)
  from assms Inr b have "evolves (session_start st) s" by (simp add: res_ok_def)
  from evolves_fields[OF this]
  have e: "storage s = storage st" "commits s = commits st" "raised s = raised st"
    "grows (storage st) (txn s)"
    by (simp_all add: session_start_def)
  show ?thesis
  proof (cases "commit s")
    case (Inl c)
    obtain e' s' where c: "c = (e', s')" by (cases c)
    from commit_result(1)[of s e' s'] Inl c e Inr b show ?thesis
      by (auto simp: session_scope_unfold rollback_def clean_def)
  next
    case (Inr s')
    from commit_result(2)[OF Inr] e \<open>body (session_start st) = Inr b\<close> b Inr show ?thesis
      by (auto simp: session_scope_unfold intro: grows_trans)
  qed
qed

lemma clean_session_start [simp]: "clean (session_start st)"
  by (simp add: clean_def session_start_def)

lemma populate_db_result:
  "case populate_db ods (Some a) st of
     (Some e, st') \<Rightarrow> storage st' = storage st \<and> commits st' = commits st
        \<and> raised st' = raised st @ [e] \<and> txn st' = storage st \<and> clean st'
   | (None, st') \<Rightarrow> raised st' = raised st
        \<and> commits st' = (if ods = [] then commits st else Suc (commits st))
        \<and> grows (storage st) (storage st')
        \<and> (ods \<noteq> [] \<longrightarrow> storage st' = txn st' \<and> clean st')"
proof (cases "ods = []")
  case True
  then show ?thesis by (simp add: populate_db_def log_append_def)
next
  case False
  let ?st0 = "log_append (Info ''populate start'') st"
  have "res_ok (session_start ?st0) (populate_body ods (session_start ?st0))"
    by (rule populate_body_ok) simp
  from session_scope_result[of ?st0 "populate_body ods" a, OF this] False show ?thesis
    by (auto simp: populate_db_def log_append_def clean_def split: prod.splits sum.splits)
qed

section \<open>One transaction: all or nothing\<close>

text \<open>
  C3. Whatever the records and the state: when \<open>_populate_db\<close> raises, the committed
  storage and the number of commits are what they were before the call, and, when a
  session was opened, the session's view is rolled back to the committed storage,
  nothing is pending, and the error raised to the caller is the one the storage layer
  raised (exactly one was raised). When it returns normally, the storage layer raised no
  error at any point of the run, and the run committed once (not at all for an empty
  list of records).
\<close>

theorem transaction_atomicity:
  "case populate_db ods app_opt st of
     (Some e, st') \<Rightarrow>
        storage st' = storage st \<and> commits st' = commits st
        \<and> (app_opt \<noteq> None \<longrightarrow>
              raised st' = raised st @ [e] \<and> txn st' = storage st \<and> session_new st' = [])
   | (None, st') \<Rightarrow>
        raised st' = raised st
        \<and> commits st' = (if ods = [] then commits st else Suc (commits st))"
proof (cases app_opt)
  case None
  then show ?thesis
    by (cases "ods = []") (auto simp: populate_db_def log_append_def session_scope_def)
next
  case (Some a)
  from populate_db_result[where ods=ods and a=a and st=st] Some show ?thesis
    by (auto simp: clean_def split: prod.splits option.splits)
qed

text \<open>
  The witness: on the storage that holds the group "G", organization "1" with the
  program "A" takes eight round trips; the storage fails on the seventh, the flush at
  the commit that inserts the program of the last record.
\<close>

theorem transaction_atomicity_witness:
  "fst (populate_db [org_one\<lparr>programs := [program_a]\<rparr>] (Some FlaskApp) state_failing_late)
     = Some OperationalError
   \<and> storage (snd (populate_db [org_one\<lparr>programs := [program_a]\<rparr>] (Some FlaskApp)
                     state_failing_late)) = db_one_group
   \<and> commits (snd (populate_db [org_one\<lparr>programs := [program_a]\<rparr>] (Some FlaskApp)
                     state_failing_late)) = 0"
proof -
  have e: "fst (populate_db [org_one\<lparr>programs := [program_a]\<rparr>] (Some FlaskApp)
                 state_failing_late) = Some OperationalError"
    by (simp add: run_defs org_one_def program_a_def fresh_state_def empty_db_def
        db_one_group_def state_failing_late_def extract_region_empty)
  have s: "storage state_failing_late = db_one_group" "commits state_failing_late = 0"
    by (simp_all add: state_failing_late_def fresh_state_def)
  from transaction_atomicity[where ods="[org_one\<lparr>programs := [program_a]\<rparr>]"
      and app_opt="Some FlaskApp" and st=state_failing_late] e s
  show ?thesis by (auto split: prod.splits option.splits)
qed

section \<open>The storage grows\<close>


lemma strip_parent_eq_fields:
  "strip_parent r' = strip_parent r \<Longrightarrow>
     eo_id r' = eo_id r \<and> eo_ogrn r' = eo_ogrn r \<and> eo_full_name r' = eo_full_name r
     \<and> eo_short_name r' = eo_short_name r \<and> eo_inn r' = eo_inn r
     \<and> eo_address r' = eo_address r \<and> eo_region_id r' = eo_region_id r"
  by (cases r, cases r') (simp add: strip_parent_def)

lemma populate_db_grows: "grows (storage st) (storage (snd (populate_db ods app_opt st)))"
proof (cases app_opt)
  case None
  then show ?thesis
    by (cases "ods = []") (auto simp: populate_db_def log_append_def session_scope_def)
next
  case (Some a)
  from populate_db_result[where ods=ods and a=a and st=st] Some show ?thesis
    by (auto split: prod.splits option.splits)
qed

section \<open>The first pass, record by record\<close>

lemma find_append_Some: "find P xs = Some x \<Longrightarrow> find P (xs @ ys) = Some x"
  by (induction xs) auto

lemma find_append_None: "find P xs = None \<Longrightarrow> find P (xs @ ys) = find P ys"
  by (induction xs) auto

lemma find_prefix_Some: "prefix xs zs \<Longrightarrow> find P xs = Some x \<Longrightarrow> find P zs = Some x"
  by (auto simp: prefix_def find_append_Some)

lemma find_map: "find P (map f xs) = map_option f (find (P \<circ> f) xs)"
  by (induction xs) auto

lemma org_id_of_strip:
  "org_id_of d k
     = map_option eo_id (find (\<lambda>r. eo_ogrn r = Some k) (map strip_parent (organizations d)))"
proof -
  have a: "(\<lambda>r. eo_ogrn r = Some k) \<circ> strip_parent = (\<lambda>r. eo_ogrn r = Some k)"
    by (simp add: fun_eq_iff strip_parent_def)
  have b: "eo_id \<circ> strip_parent = eo_id"
    by (simp add: fun_eq_iff strip_parent_def)
  show ?thesis
    by (simp add: org_id_of_def find_map a option.map_comp b)
qed

lemma org_id_of_grows:
  assumes "grows d d'" and "org_id_of d k = Some i"
  shows "org_id_of d' k = Some i"
proof -
  from assms(2) obtain r where
    r: "find (\<lambda>r. eo_ogrn r = Some k) (map strip_parent (organizations d)) = Some r"
    and i: "eo_id r = i"
    by (auto simp: org_id_of_strip)
  from assms(1) have "prefix (map strip_parent (organizations d)) (map strip_parent (organizations d'))"
    by (simp add: grows_def)
  from find_prefix_Some[OF this r] i show ?thesis by (simp add: org_id_of_strip)
qed

lemma region_row_named_grows:
  "grows d d' \<Longrightarrow> region_row_named d i n \<Longrightarrow> region_row_named d' i n"
  by (auto simp: grows_def region_row_named_def prefix_def)

lemma map_of_prefix_Some: "prefix xs zs \<Longrightarrow> map_of xs t = Some i \<Longrightarrow> map_of zs t = Some i"
  by (auto simp: prefix_def map_add_Some_iff)

lemma handle_id_evolves:
  "evolves s s' \<Longrightarrow> handle_id s h = Some i \<Longrightarrow> handle_id s' h = Some i"
  by (cases h) (auto simp: handle_id_def dest!: evolves_fields dest: map_of_prefix_Some)

lemma orgs_cache_ok_evolves:
  assumes "orgs_cache_ok c s" and "evolves s s'"
  shows "orgs_cache_ok c s'"
  unfolding orgs_cache_ok_def
proof (intro allI impI)
  fix k h
  assume "organizations_cache c k = Some h"
  with assms(1) obtain i where "handle_id s h = Some i" "org_id_of (txn s) k = Some i"
    by (auto simp: orgs_cache_ok_def)
  with assms(2) show "\<exists>i. handle_id s' h = Some i \<and> org_id_of (txn s') k = Some i"
    using handle_id_evolves org_id_of_grows evolves_fields by blast
qed

lemma regions_cache_ok_evolves:
  assumes "regions_cache_ok c s" and "evolves s s'"
  shows "regions_cache_ok c s'"
  unfolding regions_cache_ok_def
proof (intro allI impI)
  fix n h
  assume "regions_cache c n = Some h"
  with assms(1) obtain i where "handle_id s h = Some i" "region_row_named (txn s) i n"
    by (auto simp: regions_cache_ok_def)
  with assms(2) show "\<exists>i. handle_id s' h = Some i \<and> region_row_named (txn s') i n"
    using handle_id_evolves region_row_named_grows evolves_fields by blast
qed

lemma query_first_of_clean:
  assumes "clean s" and "query_first tbl P s = Inr (r, s')"
  shows "(\<exists>f. s' = s\<lparr>fault := f\<rparr>) \<and> r = find P (tbl (txn s))"
proof -
  from assms have "\<exists>s2. storage_call s = Inr s2 \<and> r = find P (tbl (txn s2)) \<and> s' = s2"
    by (auto simp: query_first_def flush_of_clean split: sum.splits)
  then obtain s2 where a: "storage_call s = Inr s2" and b: "r = find P (tbl (txn s2))" "s' = s2"
    by blast
  from storage_call_Inr[OF a] obtain f where "s2 = s\<lparr>fault := f\<rparr>" by blast
  with b show ?thesis by auto
qed

lemma flush_pending:
  assumes "flush s = Inr s'" and "session_new s \<noteq> []"
  shows "\<exists>f s2. insert_all (session_new s) (s\<lparr>fault := f\<rparr>) = Inr s2
            \<and> s' = s2\<lparr>session_new := [], dirty := False\<rparr>"
proof -
  from assms obtain s1 s2 where a: "storage_call s = Inr s1"
    and b: "insert_all (session_new s1) s1 = Inr s2"
    and c: "s' = s2\<lparr>session_new := [], dirty := False\<rparr>"
    by (auto simp: flush_def split: sum.splits)
  from storage_call_Inr[OF a] obtain f where "s1 = s\<lparr>fault := f\<rparr>" by blast
  with b c show ?thesis by auto
qed

lemma handle_id_cong: "session_ident s' = session_ident s \<Longrightarrow> handle_id s' h = handle_id s h"
  by (cases h) (simp_all add: handle_id_def)

lemma handle_id_fault [simp]: "handle_id (s\<lparr>fault := f\<rparr>) h = handle_id s h"
  by (rule handle_id_cong) simp

lemma handle_id_log [simp]: "handle_id (s\<lparr>log := l\<rparr>) h = handle_id s h"
  by (rule handle_id_cong) simp

lemma regions_cache_ok_fault [simp]:
  "regions_cache_ok c (s\<lparr>fault := f\<rparr>) = regions_cache_ok c s"
  by (simp add: regions_cache_ok_def)

lemma orgs_cache_ok_fault [simp]:
  "orgs_cache_ok c (s\<lparr>fault := f\<rparr>) = orgs_cache_ok c s"
  by (simp add: orgs_cache_ok_def)

lemma find_Some_set: "find P xs = Some x \<Longrightarrow> x \<in> set xs \<and> P x"
  by (induction xs) (auto split: if_splits)

lemma cached_region_of_clean:
  assumes "clean s" and "regions_cache_ok c s"
    and "cached_region n c s = Inr ((h, c'), s')"
  shows "(c' = c \<or> c' = c\<lparr>regions_cache := (regions_cache c)(n \<mapsto> h)\<rparr>)
     \<and> (region_resolved s s' h n \<or> region_pending s s' h n)"
proof (cases "regions_cache c n")
  case (Some h0)
  with assms(3) have e: "h = h0" "c' = c" "s' = s" by (simp_all add: cached_region_def)
  from assms(2) Some obtain i where i: "handle_id s h0 = Some i" "region_row_named (txn s) i n"
    by (auto simp: regions_cache_ok_def)
  have "region_resolved s s h0 n"
    unfolding region_resolved_def
    by (intro conjI exI[of _ "fault s"] exI[of _ i]) (simp_all add: i)
  with e show ?thesis by simp
next
  case None
  from assms(3) None have "\<exists>cr. get_or_create_Region n s = Inr ((h, cr), s')"
    by (simp add: cached_region_def split: sum.splits prod.splits)
  then obtain cr where g: "get_or_create_Region n s = Inr ((h, cr), s')" ..
  from assms(3) None g have c': "c' = c\<lparr>regions_cache := (regions_cache c)(n \<mapsto> h)\<rparr>"
    by (simp add: cached_region_def)
  from g have "\<exists>r s1. query_first regions (\<lambda>r. r_name r = n) s = Inr (r, s1)"
    by (simp add: get_or_create_Region_def split: sum.splits prod.splits)
  then obtain r s1 where q: "query_first regions (\<lambda>r. r_name r = n) s = Inr (r, s1)"
    by (elim exE)
  from query_first_of_clean[OF assms(1) q] obtain f where
    s1: "s1 = s\<lparr>fault := f\<rparr>" and r: "r = find (\<lambda>r. r_name r = n) (regions (txn s))"
    by (elim conjE exE)
  show ?thesis
  proof (cases r)
    case None
    from g q None have hs: "h = Created (next_token s1)"
      "s' = s1\<lparr>session_new := session_new s1 @ [NewRegion (next_token s1) n],
              next_token := Suc (next_token s1)\<rparr>"
      by (simp_all add: get_or_create_Region_def session_add_def)
    from assms(1) have "session_new s = []" by (simp add: clean_def)
    with hs s1 have "h = Created (next_token s)"
      "s' = s\<lparr>fault := f, session_new := [NewRegion (next_token s) n],
              next_token := Suc (next_token s)\<rparr>"
      by simp_all
    moreover from None r have "n \<notin> set (map r_name (regions (txn s)))"
      by (auto simp: find_None_iff)
    ultimately have "region_pending s s' h n"
      unfolding region_pending_def by (intro conjI exI[of _ f]) simp_all
    with c' show ?thesis by simp
  next
    case (Some row)
    with g q s1 have hs: "h = Loaded (r_id row)" "s' = s\<lparr>fault := f\<rparr>"
      by (simp_all add: get_or_create_Region_def)
    from Some r have "row \<in> set (regions (txn s)) \<and> r_name row = n"
      using find_Some_set[of "\<lambda>r. r_name r = n" "regions (txn s)" row] by simp
    then have "region_row_named (txn s) (r_id row) n"
      by (auto simp: region_row_named_def)
    with hs have "region_resolved s s' h n"
      unfolding region_resolved_def by (intro conjI exI[of _ f] exI[of _ "r_id row"])
        (simp_all add: handle_id_def)
    with c' show ?thesis by simp
  qed
qed

lemma map_of_append_fresh:
  "t \<notin> set (map fst xs) \<Longrightarrow> map_of (xs @ [(t, i)]) t = Some i"
  by (induction xs) auto

lemma insert_all_Cons_Inr:
  "insert_all (p # ps) s = Inr s2 \<Longrightarrow>
     \<exists>s1. insert_pending p s = Inr s1 \<and> insert_all ps s1 = Inr s2"
  by (auto split: sum.splits)

lemma insert_region_Inr:
  assumes "insert_pending (NewRegion t n) s = Inr s'"
  shows "s' = s\<lparr>txn := (txn s)\<lparr>regions := regions (txn s)
                   @ [\<lparr>r_id = next_id (map r_id (regions (txn s))), r_name = n\<rparr>]\<rparr>,
                session_ident := session_ident s @ [(t, next_id (map r_id (regions (txn s))))]\<rparr>"
  using assms by (simp add: raise_error_def Let_def split: if_splits)

lemma insert_org_Inr:
  assumes "insert_pending (NewOrganization t fn sn og iv a ro pa) s = Inr s'"
  shows "s' = s\<lparr>txn := (txn s)\<lparr>organizations := organizations (txn s)
           @ [\<lparr>eo_id = next_id (map eo_id (organizations (txn s))), eo_full_name = fn,
               eo_short_name = sn, eo_ogrn = og, eo_inn = iv, eo_address = a,
               eo_region_id = region_id_of s ro, eo_parent_id = pa\<rparr>]\<rparr>,
         session_ident := session_ident s @ [(t, next_id (map eo_id (organizations (txn s))))]\<rparr>"
  using assms
  by (cases ro) (simp_all add: raise_error_def Let_def region_id_of_def split: if_splits)

lemma region_id_of_fault [simp]: "region_id_of (s\<lparr>fault := f\<rparr>) ro = region_id_of s ro"
  by (cases ro) (simp_all add: region_id_of_def)

lemma flush_new_org:
  assumes "flush s3 = Inr s4"
    and "session_new s3 = [NewOrganization t fn sn og iv a ro pa]"
  shows "organizations (txn s4) = organizations (txn s3)
           @ [\<lparr>eo_id = next_id (map eo_id (organizations (txn s3))), eo_full_name = fn,
               eo_short_name = sn, eo_ogrn = og, eo_inn = iv, eo_address = a,
               eo_region_id = region_id_of s3 ro, eo_parent_id = pa\<rparr>]
       \<and> regions (txn s4) = regions (txn s3)
       \<and> session_ident s4
           = session_ident s3 @ [(t, next_id (map eo_id (organizations (txn s3))))]"
proof -
  from flush_pending[OF assms(1)] assms(2) obtain f s2 where
    a: "insert_all [NewOrganization t fn sn og iv a ro pa] (s3\<lparr>fault := f\<rparr>) = Inr s2"
    and b: "s4 = s2\<lparr>session_new := [], dirty := False\<rparr>"
    by auto
  from insert_all_Cons_Inr[OF a] have
    "insert_pending (NewOrganization t fn sn og iv a ro pa) (s3\<lparr>fault := f\<rparr>) = Inr s2"
    by simp
  from insert_org_Inr[OF this] b show ?thesis by simp
qed

lemma flush_new_region_org:
  assumes "flush s3 = Inr s4"
    and "session_new s3 = [NewRegion tr n, NewOrganization t fn sn og iv a (Some (Created tr)) pa]"
    and "tr \<notin> set (map fst (session_ident s3))"
  shows "organizations (txn s4) = organizations (txn s3)
           @ [\<lparr>eo_id = next_id (map eo_id (organizations (txn s3))), eo_full_name = fn,
               eo_short_name = sn, eo_ogrn = og, eo_inn = iv, eo_address = a,
               eo_region_id = Some (next_id (map r_id (regions (txn s3)))),
               eo_parent_id = pa\<rparr>]
       \<and> regions (txn s4) = regions (txn s3)
           @ [\<lparr>r_id = next_id (map r_id (regions (txn s3))), r_name = n\<rparr>]
       \<and> session_ident s4
           = session_ident s3 @ [(tr, next_id (map r_id (regions (txn s3)))),
                                 (t, next_id (map eo_id (organizations (txn s3))))]"
proof -
  from flush_pending[OF assms(1)] assms(2) obtain f s2 where
    a: "insert_all [NewRegion tr n, NewOrganization t fn sn og iv a (Some (Created tr)) pa]
          (s3\<lparr>fault := f\<rparr>) = Inr s2"
    and b: "s4 = s2\<lparr>session_new := [], dirty := False\<rparr>"
    by auto
  from insert_all_Cons_Inr[OF a] obtain s1 where
    a1: "insert_pending (NewRegion tr n) (s3\<lparr>fault := f\<rparr>) = Inr s1"
    and a2: "insert_all [NewOrganization t fn sn og iv a (Some (Created tr)) pa] s1 = Inr s2"
    by blast
  from insert_all_Cons_Inr[OF a2] have
    a3: "insert_pending (NewOrganization t fn sn og iv a (Some (Created tr)) pa) s1 = Inr s2"
    by simp
  note r1 = insert_region_Inr[OF a1]
  note r2 = insert_org_Inr[OF a3]
  have n: "map_of (session_ident s3) tr = None"
    using assms(3) by (simp add: map_of_eq_None_iff)
  have h: "region_id_of s1 (Some (Created tr)) = Some (next_id (map r_id (regions (txn s3))))"
    unfolding r1 using n by (simp add: region_id_of_def handle_id_def map_add_def)
  have "organizations (txn s2) = organizations (txn s1)
           @ [\<lparr>eo_id = next_id (map eo_id (organizations (txn s1))), eo_full_name = fn,
               eo_short_name = sn, eo_ogrn = og, eo_inn = iv, eo_address = a,
               eo_region_id = region_id_of s1 (Some (Created tr)), eo_parent_id = pa\<rparr>]"
    by (subst r2) simp
  moreover have "regions (txn s2) = regions (txn s1)"
    by (subst r2) simp
  moreover have
    "session_ident s2 = session_ident s1 @ [(t, next_id (map eo_id (organizations (txn s1))))]"
    by (subst r2) simp
  ultimately show ?thesis unfolding h using b r1 by simp
qed

lemma flush_new_org_ex:
  assumes "flush s3 = Inr s4"
    and "session_new s3 = [NewOrganization t fn sn og iv a ro pa]"
  shows "\<exists>row. organizations (txn s4) = organizations (txn s3) @ [row]
       \<and> eo_ogrn row = og \<and> eo_parent_id row = pa \<and> eo_region_id row = region_id_of s3 ro
       \<and> regions (txn s4) = regions (txn s3)
       \<and> session_ident s4 = session_ident s3 @ [(t, eo_id row)]"
  using flush_new_org[OF assms] by simp

lemma flush_new_region_org_ex:
  assumes "flush s3 = Inr s4"
    and "session_new s3 = [NewRegion tr n, NewOrganization t fn sn og iv a (Some (Created tr)) pa]"
    and "tr \<notin> set (map fst (session_ident s3))"
  shows "\<exists>row rrow. organizations (txn s4) = organizations (txn s3) @ [row]
       \<and> eo_ogrn row = og \<and> eo_parent_id row = pa \<and> eo_region_id row = Some (r_id rrow)
       \<and> regions (txn s4) = regions (txn s3) @ [rrow] \<and> r_name rrow = n
       \<and> session_ident s4 = session_ident s3 @ [(tr, r_id rrow), (t, eo_id row)]"
proof -
  let ?row = "\<lparr>eo_id = next_id (map eo_id (organizations (txn s3))), eo_full_name = fn,
               eo_short_name = sn, eo_ogrn = og, eo_inn = iv, eo_address = a,
               eo_region_id = Some (next_id (map r_id (regions (txn s3)))),
               eo_parent_id = pa\<rparr>"
  let ?rrow = "\<lparr>r_id = next_id (map r_id (regions (txn s3))), r_name = n\<rparr>"
  show ?thesis
    by (rule exI[of _ ?row], rule exI[of _ ?rrow]) (simp add: flush_new_region_org[OF assms])
qed

lemma regions_cache_ok_log [simp]:
  "regions_cache_ok c (s\<lparr>log := l\<rparr>) = regions_cache_ok c s"
  by (simp add: regions_cache_ok_def)

lemma clean_log [simp]: "clean (s\<lparr>log := l\<rparr>) = clean s"
  by (simp add: clean_def)

lemma clean_fault [simp]: "clean (s\<lparr>fault := f\<rparr>) = clean s"
  by (simp add: clean_def)

lemma resolve_region_of_clean:
  assumes "clean s" and "regions_cache_ok c s"
    and "resolve_region od c s = Inr ((ro, c'), s')"
  shows "\<exists>w. (ro = None \<and> region_name od = [] \<and> c' = c \<and> s' = s\<lparr>log := log s @ w\<rparr>)
           \<or> (\<exists>h n. ro = Some h
                \<and> (region_name od \<noteq> [] \<longrightarrow> n = py_capitalize (py_strip (region_name od)))
                \<and> (c' = c \<or> c' = c\<lparr>regions_cache := (regions_cache c)(n \<mapsto> h)\<rparr>)
                \<and> (region_resolved (s\<lparr>log := log s @ w\<rparr>) s' h n
                     \<or> region_pending (s\<lparr>log := log s @ w\<rparr>) s' h n))"
proof (cases "region_name od = []")
  case False
  let ?n = "py_capitalize (py_strip (region_name od))"
  from assms(3) False have "\<exists>h. cached_region ?n c s = Inr ((h, c'), s') \<and> ro = Some h"
    by (simp add: resolve_region_def split: sum.splits prod.splits)
  then obtain h where g: "cached_region ?n c s = Inr ((h, c'), s')" and ro: "ro = Some h"
    by blast
  from cached_region_of_clean[OF assms(1,2) g] ro
  have "ro = Some h \<and> (c' = c \<or> c' = c\<lparr>regions_cache := (regions_cache c)(?n \<mapsto> h)\<rparr>)
      \<and> (region_resolved (s\<lparr>log := log s @ []\<rparr>) s' h ?n
           \<or> region_pending (s\<lparr>log := log s @ []\<rparr>) s' h ?n)"
    by simp
  then show ?thesis by blast
next
  case True
  obtain f w where fw: "extract_region_from_address (address od) = (f, w)" by fastforce
  let ?s0 = "s\<lparr>log := log s @ w\<rparr>"
  have c0: "clean ?s0" "regions_cache_ok c ?s0" using assms(1,2) by simp_all
  show ?thesis
  proof (cases "f = None \<or> f = Some []")
    case True
    with assms(3) \<open>region_name od = []\<close> fw
    have "ro = None \<and> c' = c \<and> s' = ?s0"
      by (auto simp: resolve_region_def Let_def)
    with \<open>region_name od = []\<close> show ?thesis by blast
  next
    case False
    then obtain n where n: "f = Some n" "n \<noteq> []" by (cases f) auto
    with assms(3) \<open>region_name od = []\<close> fw
    have "\<exists>h. cached_region n c ?s0 = Inr ((h, c'), s') \<and> ro = Some h"
      by (simp add: resolve_region_def Let_def split: sum.splits prod.splits)
    then obtain h where g: "cached_region n c ?s0 = Inr ((h, c'), s')" and ro: "ro = Some h"
      by blast
    from cached_region_of_clean[OF c0 g] ro \<open>region_name od = []\<close>
    have "ro = Some h
      \<and> (region_name od \<noteq> [] \<longrightarrow> n = py_capitalize (py_strip (region_name od)))
      \<and> (c' = c \<or> c' = c\<lparr>regions_cache := (regions_cache c)(n \<mapsto> h)\<rparr>)
      \<and> (region_resolved ?s0 s' h n \<or> region_pending ?s0 s' h n)"
      by simp
    then show ?thesis by blast
  qed
qed

lemma map_of_append2_first:
  "t \<notin> set (map fst xs) \<Longrightarrow> map_of (xs @ [(t, i), (u, j)]) t = Some i"
  by (induction xs) auto

lemma map_of_append2_second:
  "u \<notin> set (map fst xs) \<Longrightarrow> u \<noteq> t \<Longrightarrow> map_of (xs @ [(t, i), (u, j)]) u = Some j"
  by (induction xs) auto

lemma wf_session_fresh:
  "wf_session s \<Longrightarrow> next_token s \<le> t \<Longrightarrow> t \<notin> set (map fst (session_ident s))"
  by (auto simp: wf_session_def)

lemma first_pass_step_created:
  assumes cl: "clean s" and wf: "wf_session s" and rc: "regions_cache_ok c s"
    and k: "ogrn od \<noteq> []" and miss: "organizations_cache c (ogrn od) = None"
    and nf: "find (\<lambda>r. eo_ogrn r = Some (ogrn od)) (organizations (txn s)) = None"
    and st: "first_pass_step od c s = Inr (c', s')"
  shows "org_row_created od c s c' s' \<and> regions_cache_ok c' s'"
proof -
  from first_pass_step_ok[of s od c] st have ev: "evolves s s'" by (simp add: res_ok_def)
  from st k miss have "\<exists>r s1. query_first organizations (\<lambda>r. eo_ogrn r = Some (ogrn od)) s = Inr (r, s1)"
    by (simp add: first_pass_step_def split: sum.splits prod.splits)
  then obtain r s1 where q: "query_first organizations (\<lambda>r. eo_ogrn r = Some (ogrn od)) s = Inr (r, s1)"
    by blast
  from query_first_of_clean[OF cl q] nf obtain f1 where s1: "s1 = s\<lparr>fault := f1\<rparr>" and r: "r = None"
    by auto
  from st k miss q r have "\<exists>ro c2 s2. resolve_region od c s1 = Inr ((ro, c2), s2)"
    by (simp add: first_pass_step_def split: sum.splits prod.splits)
  then obtain ro c2 s2 where rr: "resolve_region od c s1 = Inr ((ro, c2), s2)" by blast
  define t where "t = next_token s2"
  define mk where "mk = NewOrganization t (full_name od) (Some (short_name od)) (Some (ogrn od))
               (Some (inn od)) (Some (address od)) ro None"
  define s3 where "s3 = s2\<lparr>session_new := session_new s2 @ [mk], next_token := Suc t\<rparr>"
  from st k miss q r rr have fl: "flush s3 = Inr s'"
    and c': "c' = c2\<lparr>organizations_cache := (organizations_cache c2)(ogrn od \<mapsto> Created t)\<rparr>"
    by (simp_all add: first_pass_step_def session_add_def s3_def mk_def t_def split: sum.splits)
  have cl1: "clean s1" "regions_cache_ok c s1" using cl rc s1 by simp_all
  from resolve_region_of_clean[OF cl1 rr] obtain w where
    w: "(ro = None \<and> region_name od = [] \<and> c2 = c \<and> s2 = s1\<lparr>log := log s1 @ w\<rparr>)
           \<or> (\<exists>h n. ro = Some h
                \<and> (region_name od \<noteq> [] \<longrightarrow> n = py_capitalize (py_strip (region_name od)))
                \<and> (c2 = c \<or> c2 = c\<lparr>regions_cache := (regions_cache c)(n \<mapsto> h)\<rparr>)
                \<and> (region_resolved (s1\<lparr>log := log s1 @ w\<rparr>) s2 h n
                     \<or> region_pending (s1\<lparr>log := log s1 @ w\<rparr>) s2 h n))"
    by blast
  define s0 where "s0 = s1\<lparr>log := log s1 @ w\<rparr>"
  have s0: "txn s0 = txn s" "session_ident s0 = session_ident s" "next_token s0 = next_token s"
    "session_new s0 = []"
    using s1 cl by (simp_all add: clean_def s0_def)
  have fresh: "next_token s \<notin> set (map fst (session_ident s))"
    "Suc (next_token s) \<notin> set (map fst (session_ident s))"
    using wf_session_fresh[OF wf] by simp_all
  from w consider
    (none) "ro = None" "region_name od = []" "c2 = c" "s2 = s0"
  | (resolved) h n where "ro = Some h"
      "region_name od \<noteq> [] \<longrightarrow> n = py_capitalize (py_strip (region_name od))"
      "c2 = c \<or> c2 = c\<lparr>regions_cache := (regions_cache c)(n \<mapsto> h)\<rparr>"
      "region_resolved s0 s2 h n"
  | (pending) h n where "ro = Some h"
      "region_name od \<noteq> [] \<longrightarrow> n = py_capitalize (py_strip (region_name od))"
      "c2 = c \<or> c2 = c\<lparr>regions_cache := (regions_cache c)(n \<mapsto> h)\<rparr>"
      "region_pending s0 s2 h n"
    unfolding s0_def by blast
  then show ?thesis
  proof cases
    case none
    note a = none
    have s3f: "txn s3 = txn s" "session_ident s3 = session_ident s" "t = next_token s"
      using a s0 by (simp_all add: s3_def t_def)
    have sn: "session_new s3 = [NewOrganization t (full_name od) (Some (short_name od))
        (Some (ogrn od)) (Some (inn od)) (Some (address od)) ro None]"
      using a s0 by (simp add: s3_def mk_def)
    from flush_new_org_ex[OF fl sn]
    obtain row where row: "organizations (txn s') = organizations (txn s3) @ [row]"
      "eo_ogrn row = Some (ogrn od)" "eo_parent_id row = None"
      "session_ident s' = session_ident s3 @ [(t, eo_id row)]"
      by blast
    have hid: "handle_id s' (Created t) = Some (eo_id row)"
      using fresh by (simp add: handle_id_def row(4) s3f map_of_append_fresh del: map_of_append)
    have "org_row_created od c s c' s'"
      unfolding org_row_created_def
      apply (rule exI[of _ "Created t"], rule exI[of _ row])
      using a c' s3f row hid by simp
    moreover have "regions_cache_ok c' s'"
      using regions_cache_ok_evolves[OF rc ev] a c' by (simp add: regions_cache_ok_def)
    ultimately show ?thesis by simp
  next
    case (resolved h n)
    note a = resolved
    from a(4) obtain f ri where s2: "s2 = s0\<lparr>fault := f\<rparr>"
      and ri: "handle_id s0 h = Some ri" "region_row_named (txn s0) ri n"
      by (auto simp: region_resolved_def)
    have ris: "handle_id s h = Some ri" "region_row_named (txn s) ri n"
      using ri s0 handle_id_cong[of s0 s h] by simp_all
    have s3f: "txn s3 = txn s" "session_ident s3 = session_ident s" "t = next_token s"
      using s2 s0 by (simp_all add: s3_def t_def)
    have sn: "session_new s3 = [NewOrganization t (full_name od) (Some (short_name od))
        (Some (ogrn od)) (Some (inn od)) (Some (address od)) ro None]"
      using s2 s0 by (simp add: s3_def mk_def)
    have rid: "region_id_of s3 ro = Some ri"
      using a(1) ris(1) s3f handle_id_cong[of s3 s h] by (simp add: region_id_of_def)
    from flush_new_org_ex[OF fl sn]
    obtain row where row: "organizations (txn s') = organizations (txn s3) @ [row]"
      "eo_ogrn row = Some (ogrn od)" "eo_parent_id row = None"
      "session_ident s' = session_ident s3 @ [(t, eo_id row)]"
      "eo_region_id row = region_id_of s3 ro"
      by blast
    have hid: "handle_id s' (Created t) = Some (eo_id row)"
      using fresh by (simp add: handle_id_def row(4) s3f map_of_append_fresh del: map_of_append)
    have rn': "region_row_named (txn s') ri n"
      using region_row_named_grows[OF _ ris(2)] evolves_fields[OF ev] by blast
    have hid': "handle_id s' h = Some ri" by (rule handle_id_evolves[OF ev ris(1)])
    have "org_row_created od c s c' s'"
      unfolding org_row_created_def
      apply (rule exI[of _ "Created t"], rule exI[of _ row])
      using a(2,3) c' s3f row hid rn' rid by auto
    moreover have "regions_cache_ok c' s'"
      using regions_cache_ok_evolves[OF rc ev] a(3) c' rn' hid'
      by (auto simp: regions_cache_ok_def split: if_splits)
    ultimately show ?thesis by simp
  next
    case (pending h n)
    note a = pending
    define tr where "tr = next_token s"
    from a(4) s0 obtain f where h: "h = Created tr"
      and s2: "s2 = s0\<lparr>fault := f, session_new := [NewRegion tr n], next_token := Suc tr\<rparr>"
      by (auto simp: region_pending_def tr_def)
    have s3f: "txn s3 = txn s" "session_ident s3 = session_ident s" "t = Suc tr"
      using s2 s0 by (simp_all add: s3_def t_def)
    have sn: "session_new s3 = [NewRegion tr n,
        NewOrganization t (full_name od) (Some (short_name od)) (Some (ogrn od))
               (Some (inn od)) (Some (address od)) (Some (Created tr)) None]"
      using s2 a(1) h by (simp add: s3_def mk_def)
    have fr3: "tr \<notin> set (map fst (session_ident s3))" using fresh s3f by (simp add: tr_def)
    from flush_new_region_org_ex[OF fl sn fr3]
    obtain row rrow where row: "organizations (txn s') = organizations (txn s3) @ [row]"
      "eo_ogrn row = Some (ogrn od)" "eo_parent_id row = None"
      "session_ident s' = session_ident s3 @ [(tr, r_id rrow), (t, eo_id row)]"
      "eo_region_id row = Some (r_id rrow)"
      "regions (txn s') = regions (txn s3) @ [rrow]" "r_name rrow = n"
      by blast
    have hid: "handle_id s' (Created t) = Some (eo_id row)"
      using fresh by (simp add: handle_id_def row(4) s3f map_of_append2_second tr_def del: map_of_append)
    have hid': "handle_id s' h = Some (r_id rrow)"
      using fresh h by (simp add: handle_id_def row(4) s3f map_of_append2_first tr_def del: map_of_append)
    have rn': "region_row_named (txn s') (r_id rrow) n"
      using row(6,7) by (auto simp: region_row_named_def)
    have "org_row_created od c s c' s'"
      unfolding org_row_created_def
      apply (rule exI[of _ "Created t"], rule exI[of _ row])
      using a(2,3) c' s3f row hid rn' by auto
    moreover have "regions_cache_ok c' s'"
      using regions_cache_ok_evolves[OF rc ev] a(3) c' rn' hid'
      by (auto simp: regions_cache_ok_def split: if_splits)
    ultimately show ?thesis by simp
  qed
qed

lemma find_org_None_iff:
  "find (\<lambda>r. eo_ogrn r = Some k) (organizations d) = None \<longleftrightarrow> k \<notin> org_keys d"
proof -
  have "k \<in> org_keys d \<longleftrightarrow> (\<exists>x\<in>set (organizations d). eo_ogrn x = Some k)"
    by (force simp: org_keys_def)
  then show ?thesis by (auto simp: find_None_iff)
qed

lemma org_id_of_append_new:
  "k \<notin> org_keys d \<Longrightarrow> organizations d' = organizations d @ [row] \<Longrightarrow> eo_ogrn row = Some k
   \<Longrightarrow> org_id_of d' k = Some (eo_id row)"
  by (simp add: org_id_of_def find_append_None find_org_None_iff)

lemma first_pass_step_cases:
  assumes "first_pass_step od c s = Inr (c', s')" and "clean s"
  obtains
    (skipped) "ogrn od = []" "c' = c" "s' = log_append (WarnSkipWithoutOgrn (full_name od)) s"
  | (cached) "ogrn od \<noteq> []" "organizations_cache c (ogrn od) \<noteq> None" "c' = c" "s' = s"
  | (found) r f where "ogrn od \<noteq> []" "organizations_cache c (ogrn od) = None"
      "find (\<lambda>r. eo_ogrn r = Some (ogrn od)) (organizations (txn s)) = Some r"
      "c' = c\<lparr>organizations_cache := (organizations_cache c)(ogrn od \<mapsto> Loaded (eo_id r))\<rparr>"
      "s' = s\<lparr>fault := f\<rparr>"
  | (created) "ogrn od \<noteq> []" "organizations_cache c (ogrn od) = None"
      "find (\<lambda>r. eo_ogrn r = Some (ogrn od)) (organizations (txn s)) = None"
proof (cases "ogrn od = []")
  case True
  with assms(1) show ?thesis by (intro skipped) (simp_all add: first_pass_step_def)
next
  case False
  show ?thesis
  proof (cases "organizations_cache c (ogrn od)")
    case (Some h)
    with assms(1) False show ?thesis by (intro cached) (simp_all add: first_pass_step_def)
  next
    case None
    from assms(1) False None
    have "\<exists>r s1. query_first organizations (\<lambda>r. eo_ogrn r = Some (ogrn od)) s = Inr (r, s1)"
      by (simp add: first_pass_step_def split: sum.splits prod.splits)
    then obtain r s1 where
      q: "query_first organizations (\<lambda>r. eo_ogrn r = Some (ogrn od)) s = Inr (r, s1)"
      by blast
    from query_first_of_clean[OF assms(2) q] obtain f where
      s1: "s1 = s\<lparr>fault := f\<rparr>"
      and r: "r = find (\<lambda>r. eo_ogrn r = Some (ogrn od)) (organizations (txn s))"
      by blast
    show ?thesis
    proof (cases r)
      case None
      with r False \<open>organizations_cache c (ogrn od) = None\<close> show ?thesis
        by (intro created) simp_all
    next
      case (Some row)
      with r have fr: "find (\<lambda>r. eo_ogrn r = Some (ogrn od)) (organizations (txn s)) = Some row"
        by simp
      from q r s1 fr have q': "query_first organizations (\<lambda>r. eo_ogrn r = Some (ogrn od)) s
          = Inr (Some row, s\<lparr>fault := f\<rparr>)" by simp
      from assms(1) False \<open>organizations_cache c (ogrn od) = None\<close> q' fr show ?thesis
        by (intro found[of row f]) (simp_all add: first_pass_step_def)
    qed
  qed
qed

lemma handle_id_Loaded [simp]: "handle_id s (Loaded i) = Some i"
  by (simp add: handle_id_def)

lemma clean_log_append [simp]: "clean (log_append e s) = clean s"
  by (simp add: log_append_def)

lemma txn_log_append [simp]: "txn (log_append e s) = txn s"
  by (simp add: log_append_def)

lemma orgs_cache_ok_log_append [simp]:
  "orgs_cache_ok c (log_append e s) = orgs_cache_ok c s"
  by (simp add: orgs_cache_ok_def log_append_def)

lemma regions_cache_ok_log_append [simp]:
  "regions_cache_ok c (log_append e s) = regions_cache_ok c s"
  by (simp add: log_append_def)

lemma first_pass_step_inv:
  assumes inv: "first_pass_inv c s" and st: "first_pass_step od c s = Inr (c', s')"
  shows "first_pass_inv c' s' \<and> first_pass_frame [od] c s c' s'"
proof -
  from inv have cl: "clean s" and wf: "wf_session s" and rc: "regions_cache_ok c s"
    and oc: "orgs_cache_ok c s"
    by (simp_all add: first_pass_inv_def)
  from first_pass_step_ok[of s od c] st have ev: "evolves s s'" by (simp add: res_ok_def)
  have cl': "clean s'" by (rule first_pass_step_clean[OF cl st])
  have wf': "wf_session s'" using ev wf by (simp add: evolves_def)
  from st cl show ?thesis
  proof (cases rule: first_pass_step_cases)
    case skipped
    with inv ev wf' show ?thesis
      by (auto simp: first_pass_inv_def first_pass_frame_def)
  next
    case cached
    with inv ev show ?thesis
      by (auto simp: first_pass_inv_def first_pass_frame_def)
  next
    case (found r f)
    have "org_id_of (txn s) (ogrn od) = Some (eo_id r)"
      using found(3) by (simp add: org_id_of_def)
    then have oc': "orgs_cache_ok c' s'"
      using oc found(4,5) by (auto simp: orgs_cache_ok_def split: if_splits)
    have rc': "regions_cache_ok c' s'"
      using rc found(4,5) by (simp add: regions_cache_ok_def)
    have "org_keys (txn s') = org_keys (txn s)" using found(5) by (simp add: org_keys_def)
    with found ev cl' wf' oc' rc' show ?thesis
      by (auto simp: first_pass_inv_def first_pass_frame_def split: if_splits)
  next
    case created
    from first_pass_step_created[OF cl wf rc created st]
    have cr: "org_row_created od c s c' s'" and rc': "regions_cache_ok c' s'" by simp_all
    from cr obtain h row where c': "organizations_cache c' = (organizations_cache c)(ogrn od \<mapsto> h)"
      and hid: "handle_id s' h = Some (eo_id row)"
      and rows: "organizations (txn s') = organizations (txn s) @ [row]"
      and rk: "eo_ogrn row = Some (ogrn od)"
      by (auto simp: org_row_created_def)
    from created(3) have nk: "ogrn od \<notin> org_keys (txn s)" by (simp add: find_org_None_iff)
    from org_id_of_append_new[OF nk rows rk] have oid: "org_id_of (txn s') (ogrn od) = Some (eo_id row)" .
    have oc': "orgs_cache_ok c' s'"
      unfolding orgs_cache_ok_def
    proof (intro allI impI)
      fix k h'
      assume a: "organizations_cache c' k = Some h'"
      show "\<exists>i. handle_id s' h' = Some i \<and> org_id_of (txn s') k = Some i"
      proof (cases "k = ogrn od")
        case True
        with a c' hid oid show ?thesis by simp
      next
        case False
        with a c' have "organizations_cache c k = Some h'" by simp
        with orgs_cache_ok_evolves[OF oc ev] show ?thesis by (simp add: orgs_cache_ok_def)
      qed
    qed
    have keys: "org_keys (txn s') \<subseteq> org_keys (txn s) \<union> {ogrn od}"
      using rows rk by (auto simp: org_keys_def)
    from created ev cl' wf' oc' rc' c' keys show ?thesis
      by (auto simp: first_pass_inv_def first_pass_frame_def)
  qed
qed

lemma first_pass_frame_trans:
  assumes "first_pass_frame xs c s c1 s1" and "first_pass_frame ys c1 s1 c2 s2"
  shows "first_pass_frame (xs @ ys) c s c2 s2"
  using assms unfolding first_pass_frame_def
  by (auto intro: evolves_trans) blast+

lemma first_pass_list_inv:
  assumes "first_pass_inv c s" and "first_pass ods c s = Inr (c', s')"
  shows "first_pass_inv c' s' \<and> first_pass_frame ods c s c' s'"
  using assms
proof (induction ods arbitrary: c s)
  case Nil
  then show ?case by (simp add: first_pass_frame_def)
next
  case (Cons od ods)
  from Cons.prems(2) obtain c1 s1 where a: "first_pass_step od c s = Inr (c1, s1)"
    and b: "first_pass ods c1 s1 = Inr (c', s')"
    by (auto split: sum.splits)
  from first_pass_step_inv[OF Cons.prems(1) a]
  have i1: "first_pass_inv c1 s1" and f1: "first_pass_frame [od] c s c1 s1" by simp_all
  from Cons.IH[OF i1 b] have "first_pass_inv c' s'" and f2: "first_pass_frame ods c1 s1 c' s'"
    by simp_all
  with first_pass_frame_trans[OF f1 f2] show ?case by simp
qed

lemma first_pass_append:
  "first_pass (xs @ ys) c s
     = (case first_pass xs c s of Inl e \<Rightarrow> Inl e | Inr (c', s') \<Rightarrow> first_pass ys c' s')"
  by (induction xs arbitrary: c s) (auto split: sum.splits)

lemma second_pass_append:
  "second_pass (xs @ ys) c s
     = (case second_pass xs c s of Inl e \<Rightarrow> Inl e | Inr (c', s') \<Rightarrow> second_pass ys c' s')"
  by (induction xs arbitrary: c s) (auto split: sum.splits)

lemma first_pass_evolves: "first_pass ods c s = Inr (c', s') \<Longrightarrow> evolves s s'"
  using first_pass_ok[of s ods c] by (simp add: res_ok_def)

lemma second_pass_evolves: "second_pass ods c s = Inr (c', s') \<Longrightarrow> evolves s s'"
  using second_pass_ok[of s ods c] by (simp add: res_ok_def)

lemma clean_run_start [simp]: "clean (run_start st)"
  by (simp add: run_start_def)

lemma populate_db_success:
  assumes "populate_db ods (Some a) st = (None, st')" and "ods \<noteq> []"
  shows "\<exists>c1 s1 c2 s2 s3.
           first_pass ods empty_caches (run_start st) = Inr (c1, s1)
           \<and> second_pass ods c1 (pass2_start s1) = Inr (c2, s2)
           \<and> commit (log_append (Info ''second pass done'') s2) = Inr s3
           \<and> st' = log_append (Info ''populate done'') s3"
proof -
  let ?st0 = "log_append (Info ''populate start'') st"
  from assms have "\<exists>fin s. populate_body ods (session_start ?st0) = Inr (fin, s)"
    by (auto simp: populate_db_def session_scope_unfold split: sum.splits prod.splits)
  then obtain fin s where pb: "populate_body ods (session_start ?st0) = Inr (fin, s)" by blast
  then obtain c1 s1 where fp: "first_pass ods empty_caches (run_start st) = Inr (c1, s1)"
    by (auto simp: populate_body_def run_start_def split: sum.splits)
  have "clean s1" by (rule first_pass_clean[OF clean_run_start fp])
  then have fl: "flush s1 = Inr s1" by (rule flush_of_clean)
  from pb fp fl obtain c2 s2 where
    sp: "second_pass ods c1 (pass2_start s1) = Inr (c2, s2)"
    and fin: "fin = True" "s = log_append (Info ''second pass done'') s2"
    by (auto simp: populate_body_def run_start_def pass2_start_def split: sum.splits)
  from assms pb fin obtain s3 where
    "commit (log_append (Info ''second pass done'') s2) = Inr s3"
    "st' = log_append (Info ''populate done'') s3"
    by (auto simp: populate_db_def session_scope_unfold split: sum.splits prod.splits)
  with fp sp show ?thesis by blast
qed

lemma strip_parent_in_prefix:
  assumes "prefix (map strip_parent xs) (map strip_parent ys)" and "x \<in> set xs"
  shows "\<exists>y\<in>set ys. strip_parent y = strip_parent x"
proof -
  from assms(2) have "strip_parent x \<in> set (map strip_parent xs)" by simp
  with assms(1) have "strip_parent x \<in> set (map strip_parent ys)"
    using set_mono_prefix by blast
  then show ?thesis by auto
qed

lemma org_with_region_grows:
  assumes "grows d d'" and "org_with_region d k n"
  shows "org_with_region d' k n"
proof -
  from assms(2) obtain o' r where o: "o' \<in> set (organizations d)" and r: "r \<in> set (regions d)"
    and f: "eo_ogrn o' = Some k" "eo_region_id o' = Some (r_id r)" "r_name r = n"
    by (auto simp: org_with_region_def)
  from assms(1) have "prefix (map strip_parent (organizations d)) (map strip_parent (organizations d'))"
    and pr: "prefix (regions d) (regions d')"
    by (simp_all add: grows_def)
  from strip_parent_in_prefix[OF this(1) o] obtain y where
    y: "y \<in> set (organizations d')" "strip_parent y = strip_parent o'" by blast
  from strip_parent_eq_fields[OF y(2)] f have "eo_ogrn y = Some k" "eo_region_id y = Some (r_id r)"
    by simp_all
  moreover from pr r have "r \<in> set (regions d')" using set_mono_prefix by blast
  ultimately show ?thesis using y(1) f(3) by (auto simp: org_with_region_def)
qed

lemma first_pass_inv_start: "first_pass_inv empty_caches (run_start st)"
  by (simp add: first_pass_inv_def run_start_def wf_session_def log_append_def session_start_def
      regions_cache_ok_def orgs_cache_ok_def empty_caches_def clean_def)

lemma txn_run_start [simp]: "txn (run_start st) = storage st"
  by (simp add: run_start_def session_start_def log_append_def)

lemma run_reaches_storage:
  assumes "second_pass ods c1 (pass2_start s1) = Inr (c2, s2)"
    and "commit (log_append (Info ''second pass done'') s2) = Inr s3"
  shows "grows (txn s1) (storage (log_append e s3))"
proof -
  have "evolves s1 (pass2_start s1)"
    unfolding pass2_start_def by (rule evolves_trans[OF log_append_evolves log_append_evolves])
  from evolves_trans[OF this second_pass_evolves[OF assms(1)]]
  have "evolves s1 (log_append (Info ''second pass done'') s2)"
    by (rule evolves_trans) simp
  from evolves_fields[OF this]
  have "grows (txn s1) (txn (log_append (Info ''second pass done'') s2))" by simp
  from grows_trans[OF this] commit_result(2)[OF assms(2)]
  show ?thesis by (simp add: log_append_def)
qed

section \<open>The region of a new organization\<close>

text \<open>
  C7, as the code has it. In a run that completes, take the first record with a given
  non-empty OGRN that no organization of the storage has: the first pass creates the
  organization from it. When the record carries a non-empty region name, the storage
  holds afterwards an organization with that OGRN whose \<open>region_id\<close> is the key of a
  region row named by the record's region name stripped and capitalised (first character
  upper-cased, all the others lower-cased, as \<open>str.capitalize\<close> does). The region name
  is taken in the alphabet on which the model of \<open>str.capitalize\<close> is exact: Basic Latin
  and the Cyrillic block U+0400..U+045F.
\<close>

theorem new_organization_region_name:
  assumes run: "populate_db ods (Some a) st = (None, st')"
    and ods: "ods = pre @ od # post"
    and k: "ogrn od \<noteq> []" and rn: "region_name od \<noteq> []"
    and alphabet: "in_alphabet (region_name od)"
    and first: "ogrn od \<notin> set (map ogrn pre)"
    and new: "ogrn od \<notin> org_keys (storage st)"
  shows "org_with_region (storage st') (ogrn od) (py_capitalize (py_strip (region_name od)))"
proof -
  from ods have ne: "ods \<noteq> []" by simp
  from populate_db_success[OF run ne] obtain c1 s1 c2 s2 s3 where
    fp: "first_pass ods empty_caches (run_start st) = Inr (c1, s1)"
    and sp: "second_pass ods c1 (pass2_start s1) = Inr (c2, s2)"
    and cm: "commit (log_append (Info ''second pass done'') s2) = Inr s3"
    and st': "st' = log_append (Info ''populate done'') s3"
    by blast
  from fp ods obtain cp sp' where
    p1: "first_pass pre empty_caches (run_start st) = Inr (cp, sp')"
    and p2: "first_pass (od # post) cp sp' = Inr (c1, s1)"
    by (auto simp: first_pass_append split: sum.splits)
  from p2 obtain cq sq where
    p3: "first_pass_step od cp sp' = Inr (cq, sq)" and p4: "first_pass post cq sq = Inr (c1, s1)"
    by (auto split: sum.splits)
  from first_pass_list_inv[OF first_pass_inv_start p1]
  have inv: "first_pass_inv cp sp'" and fr: "first_pass_frame pre empty_caches (run_start st) cp sp'"
    by simp_all
  from fr first have miss: "organizations_cache cp (ogrn od) = None"
    by (auto simp: first_pass_frame_def empty_caches_def)
  from fr first new have "ogrn od \<notin> org_keys (txn sp')"
    by (auto simp: first_pass_frame_def)
  then have nf: "find (\<lambda>r. eo_ogrn r = Some (ogrn od)) (organizations (txn sp')) = None"
    by (simp add: find_org_None_iff)
  from inv have "clean sp'" "wf_session sp'" "regions_cache_ok cp sp'"
    by (simp_all add: first_pass_inv_def)
  from first_pass_step_created[OF this k miss nf p3] have "org_row_created od cp sp' cq sq"
    by simp
  then obtain row where rows: "organizations (txn sq) = organizations (txn sp') @ [row]"
    and rk: "eo_ogrn row = Some (ogrn od)"
    and rr: "region_name od \<noteq> [] \<longrightarrow>
              (\<exists>ri. eo_region_id row = Some ri
                 \<and> region_row_named (txn sq) ri (py_capitalize (py_strip (region_name od))))"
    unfolding org_row_created_def by blast
  from rr rn obtain ri where ri: "eo_region_id row = Some ri"
    "region_row_named (txn sq) ri (py_capitalize (py_strip (region_name od)))"
    by blast
  have "row \<in> set (organizations (txn sq))" using rows by simp
  with rk ri
  have "org_with_region (txn sq) (ogrn od) (py_capitalize (py_strip (region_name od)))"
    by (auto simp: org_with_region_def region_row_named_def)
  moreover have "grows (txn sq) (txn s1)"
    using evolves_fields[OF first_pass_evolves[OF p4]] by simp
  moreover have "grows (txn s1) (storage st')"
    unfolding st' by (rule run_reaches_storage[OF sp cm])
  ultimately show ?thesis
    using org_with_region_grows grows_trans by blast
qed

lemma run_org_one_with_region:
  "fst (populate_db [org_one_with_region] (Some FlaskApp) (fresh_state empty_db)) = None"
  "map r_name (regions (storage (snd (populate_db [org_one_with_region] (Some FlaskApp)
                                        (fresh_state empty_db))))) = [region_moscow_oblast]"
  by (simp_all add: run_defs org_one_with_region_def org_one_def fresh_state_def empty_db_def
      region_field_lower_capitalize region_field_lower_nonempty)

theorem new_organization_region_name_witness:
  "org_with_region
     (storage (snd (populate_db [org_one_with_region] (Some FlaskApp) (fresh_state empty_db))))
     [49] region_moscow_oblast"
proof -
  have run: "populate_db [org_one_with_region] (Some FlaskApp) (fresh_state empty_db)
      = (None, snd (populate_db [org_one_with_region] (Some FlaskApp) (fresh_state empty_db)))"
    using run_org_one_with_region(1) by (simp add: prod_eq_iff)
  have "org_with_region
     (storage (snd (populate_db [org_one_with_region] (Some FlaskApp) (fresh_state empty_db))))
     (ogrn org_one_with_region) (py_capitalize (py_strip (region_name org_one_with_region)))"
    by (rule new_organization_region_name[OF run, of "[]" org_one_with_region "[]"])
       (simp_all add: org_one_with_region_def org_one_def region_field_lower_nonempty
          region_field_lower_in_alphabet org_keys_def fresh_state_def empty_db_def)
  then show ?thesis
    by (simp add: org_one_with_region_def org_one_def region_field_lower_capitalize)
qed

text \<open>
  The claim as stated, with the name title-cased, fails: from the region field
  " moskovskaya oblast'" the run creates the region "Moskovskaya oblast'", while the
  title-cased name is "Moskovskaya Oblast'".
\<close>

theorem region_name_not_title_cased:
  "map r_name (regions (storage (snd (populate_db [org_one_with_region] (Some FlaskApp)
                                        (fresh_state empty_db))))) = [region_moscow_oblast]
   \<and> spec_title_cased (py_strip (region_name org_one_with_region)) = region_moscow_oblast_titled
   \<and> region_moscow_oblast \<noteq> region_moscow_oblast_titled"
  using run_org_one_with_region(2) region_field_lower_title
  by (simp add: org_one_with_region_def region_moscow_oblast_def region_moscow_oblast_titled_def)

section \<open>The second pass, record by record\<close>










lemma keeps_orgs_refl: "no_org_pending s \<Longrightarrow> keeps_orgs s s"
  by (simp add: keeps_orgs_def)














lemma org_id_in_assign_parent [simp]:
  "org_id_in (assign_parent i v xs) k = org_id_in xs k"
proof -
  let ?f = "\<lambda>r. if eo_id r = i then r\<lparr>eo_parent_id := v\<rparr> else r"
  have a: "(\<lambda>r. eo_ogrn r = Some k) \<circ> ?f = (\<lambda>r. eo_ogrn r = Some k)"
    by (auto simp: fun_eq_iff)
  have b: "eo_id \<circ> ?f = eo_id" by (auto simp: fun_eq_iff)
  show ?thesis
    unfolding org_id_in_def assign_parent_def
    by (simp only: find_map a option.map_comp b)
qed


lemma no_org_pending_set_parent_id [simp]:
  "no_org_pending (set_parent_id h v s) = no_org_pending s"
proof -
  have "is_org (set_pending_parent t v p) = is_org p" for t p
    by (cases p) auto
  then show ?thesis
    by (auto simp: set_parent_id_def no_org_pending_def split: option.splits handle.splits)
qed

lemma no_org_pending_log_append [simp]:
  "no_org_pending (log_append e s) = no_org_pending s"
  by (simp add: no_org_pending_def log_append_def)


lemma link_effect_no_cache:
  "org_id_in xs (ogrn od) = None \<Longrightarrow> link_effect od xs = xs"
  by (simp add: link_effect_def split: option.splits)







lemma strip_parent_assign [simp]:
  "map strip_parent (assign_parent i v xs) = map strip_parent xs"
  by (simp add: assign_parent_def strip_parent_def)

lemma length_assign_parent [simp]: "length (assign_parent i v xs) = length xs"
  by (simp add: assign_parent_def)

lemma link_effect_strip [simp]: "map strip_parent (link_effect od xs) = map strip_parent xs"
  by (simp add: link_effect_def split: option.splits)

lemma link_effect_org_id_in [simp]: "org_id_in (link_effect od xs) k = org_id_in xs k"
  by (simp add: link_effect_def split: option.splits)

lemma eo_id_strip_parent [simp]: "eo_id (strip_parent r) = eo_id r"
  by (simp add: strip_parent_def)

lemma eo_ogrn_strip_parent [simp]: "eo_ogrn (strip_parent r) = eo_ogrn r"
  by (simp add: strip_parent_def)

lemma map_strip_eq_ids:
  assumes "map strip_parent ys = map strip_parent xs"
  shows "map eo_id ys = map eo_id xs"
proof -
  have "map eo_id ys = map eo_id (map strip_parent ys)" by (simp add: comp_def)
  also have "\<dots> = map eo_id (map strip_parent xs)" using assms by simp
  also have "\<dots> = map eo_id xs" by (simp add: comp_def)
  finally show ?thesis .
qed



lemma fold_links_snoc: "fold_links (ods @ [od]) xs = link_effect od (fold_links ods xs)"
  by (simp add: fold_links_def)

lemma fold_links_strip [simp]: "map strip_parent (fold_links ods xs) = map strip_parent xs"
  by (induction ods rule: rev_induct) (simp_all add: fold_links_snoc, simp add: fold_links_def)

lemma fold_links_org_id_in [simp]: "org_id_in (fold_links ods xs) k = org_id_in xs k"
  by (induction ods rule: rev_induct) (simp_all add: fold_links_snoc, simp add: fold_links_def)


lemma second_pass_inv_log_append [simp]:
  "second_pass_inv c (log_append e s) = second_pass_inv c s"
  by (simp add: second_pass_inv_def)


lemma populate_db_failed_storage:
  assumes "fst (populate_db ods app_opt st) \<noteq> None \<or> ods = [] \<or> app_opt = None"
  shows "storage (snd (populate_db ods app_opt st)) = storage st"
proof (cases app_opt)
  case None
  then show ?thesis
    by (cases "ods = []") (auto simp: populate_db_def log_append_def session_scope_def)
next
  case (Some a)
  show ?thesis
  proof (cases "ods = []")
    case True
    then show ?thesis by (simp add: populate_db_def log_append_def)
  next
    case False
    with assms Some have "fst (populate_db ods (Some a) st) \<noteq> None" by simp
    with populate_db_result[where ods=ods and a=a and st=st] Some show ?thesis
      by (auto split: prod.splits option.splits)
  qed
qed

section \<open>Rows that exist before the run\<close>





section \<open>The specialties of a run\<close>

lemma res_holds_bind:
  assumes "res_holds P m"
    and "\<And>v s1. m = Inr (v, s1) \<Longrightarrow> P s1 \<Longrightarrow> res_holds P (f (v, s1))"
  shows "res_holds P (case m of Inl e \<Rightarrow> Inl e | Inr x \<Rightarrow> f x)"
proof (cases m)
  case (Inl a)
  then show ?thesis by (simp add: res_holds_def)
next
  case (Inr b)
  obtain v s1 where b: "b = (v, s1)" by (cases b)
  from assms(1) Inr b have "P s1" by (simp add: res_holds_def)
  from assms(2)[OF _ this] Inr b show ?thesis by simp
qed

lemma res_holds_Inr [simp]: "res_holds P (Inr (v, s)) = P s"
  by (simp add: res_holds_def)

lemma res_holds_Inl [simp]: "res_holds P (Inl e)"
  by (simp add: res_holds_def)

lemma group_row_coded_grows:
  "grows d d' \<Longrightarrow> group_row_coded d i k \<Longrightarrow> group_row_coded d' i k"
  unfolding grows_def group_row_coded_def using set_mono_prefix by blast

lemma specialty_explained_grows:
  "grows d d' \<Longrightarrow> specialty_explained ods d r \<Longrightarrow> specialty_explained ods d' r"
  unfolding specialty_explained_def using group_row_coded_grows by blast

lemma pending_explained_grows:
  assumes "grows d d'" and "pending_explained ods d p"
  shows "pending_explained ods d' p"
proof (cases p)
  case (NewSpecialty t code name g)
  with assms show ?thesis
    by (cases g) (auto intro: group_row_coded_grows)
qed simp_all

lemma group_row_coded_cong:
  "specialty_groups d' = specialty_groups d \<Longrightarrow> group_row_coded d' i k = group_row_coded d i k"
  by (simp add: group_row_coded_def)

lemma specialty_explained_cong:
  "specialty_groups d' = specialty_groups d \<Longrightarrow>
     specialty_explained ods d' r = specialty_explained ods d r"
  by (simp add: specialty_explained_def group_row_coded_def)

lemma pending_explained_cong:
  assumes "specialty_groups d' = specialty_groups d"
  shows "pending_explained ods d' p = pending_explained ods d p"
proof (cases p)
  case (NewSpecialty t code name g)
  with assms show ?thesis by (cases g) (simp_all add: group_row_coded_def)
qed simp_all

lemma insert_pending_specialties:
  assumes ins: "insert_pending p s = Inr s'"
    and rows: "rows_explained ods n (txn s)"
    and p: "pending_explained ods (txn s) p"
  shows "rows_explained ods n (txn s')"
proof -
  from insert_pending_Inr[OF ins] have g: "grows (txn s) (txn s')"
    by (simp add: evolves0_def)
  have old: "specialty_explained ods (txn s') r" if "r \<in> set (drop n (specialties (txn s)))" for r
    using rows that specialty_explained_grows[OF g] by (auto simp: rows_explained_def)
  show ?thesis
  proof (cases p)
    case (NewRegion t nm)
    with ins have "specialties (txn s') = specialties (txn s)"
      by (auto simp: raise_error_def Let_def split: if_splits)
    with old show ?thesis by (simp add: rows_explained_def)
  next
    case (NewSpecialtyGroup t c nm)
    with ins have "specialties (txn s') = specialties (txn s)"
      by (auto simp: raise_error_def Let_def split: if_splits)
    with old show ?thesis by (simp add: rows_explained_def)
  next
    case (NewOrganization t fn sn og i a r pa)
    with ins have "specialties (txn s') = specialties (txn s)"
      by (auto simp: raise_error_def Let_def split: if_splits)
    with old show ?thesis by (simp add: rows_explained_def)
  next
    case (NewProgram t oi si)
    with ins have "specialties (txn s') = specialties (txn s)"
      by (auto simp: raise_error_def Let_def split: if_splits option.splits)
    with old show ?thesis by (simp add: rows_explained_def)
  next
    case (NewSpecialty t code nm g)
    with ins obtain gid where gid: "g = Some gid"
      by (cases g) (auto simp: raise_error_def)
    from ins NewSpecialty gid obtain i where
      sp: "specialties (txn s') = specialties (txn s)
             @ [\<lparr>s_id = i, s_code = code, s_name = nm, s_group_id = gid\<rparr>]"
      by (auto simp: raise_error_def Let_def split: if_splits)
    from p NewSpecialty gid
    have "specialty_explained ods (txn s) \<lparr>s_id = i, s_code = code, s_name = nm, s_group_id = gid\<rparr>"
      by (simp add: specialty_explained_def)
    from specialty_explained_grows[OF g this]
    have new: "specialty_explained ods (txn s') \<lparr>s_id = i, s_code = code, s_name = nm, s_group_id = gid\<rparr>" .
    have "set (drop n (specialties (txn s')))
            \<subseteq> set (drop n (specialties (txn s)))
               \<union> {\<lparr>s_id = i, s_code = code, s_name = nm, s_group_id = gid\<rparr>}"
      unfolding sp
      using set_drop_subset[of "n - length (specialties (txn s))"
          "[\<lparr>s_id = i, s_code = code, s_name = nm, s_group_id = gid\<rparr>]"]
      by auto
    with old new show ?thesis by (auto simp: rows_explained_def)
  qed
qed

lemma insert_all_specialties:
  assumes "insert_all ps s = Inr s'" and "rows_explained ods n (txn s)"
    and "\<forall>p\<in>set ps. pending_explained ods (txn s) p"
  shows "rows_explained ods n (txn s')"
  using assms
proof (induction ps arbitrary: s)
  case Nil
  then show ?case by simp
next
  case (Cons p ps)
  from insert_all_Cons_Inr[OF Cons.prems(1)] obtain s1 where
    a: "insert_pending p s = Inr s1" and b: "insert_all ps s1 = Inr s'" by blast
  from Cons.prems(3) have p: "pending_explained ods (txn s) p" by simp
  from insert_pending_specialties[OF a Cons.prems(2) p] have r1: "rows_explained ods n (txn s1)" .
  from insert_pending_Inr[OF a] have g: "grows (txn s) (txn s1)" by (simp add: evolves0_def)
  from Cons.prems(3) pending_explained_grows[OF g]
  have "\<forall>p\<in>set ps. pending_explained ods (txn s1) p" by simp
  from Cons.IH[OF b r1 this] show ?case .
qed

lemma specialties_inv_fault [simp]:
  "specialties_inv ods n (s\<lparr>fault := f\<rparr>) = specialties_inv ods n s"
  by (simp add: specialties_inv_def)

lemma specialties_inv_log_append [simp]:
  "specialties_inv ods n (log_append e s) = specialties_inv ods n s"
  by (simp add: specialties_inv_def log_append_def)

lemma specialties_inv_log [simp]:
  "specialties_inv ods n (s\<lparr>log := l\<rparr>) = specialties_inv ods n s"
  by (simp add: specialties_inv_def)

lemma flush_specialties:
  assumes "specialties_inv ods n s" and "flush s = Inr s'"
  shows "specialties_inv ods n s'"
proof (cases "session_new s = []")
  case True
  with assms(2) have "txn s' = txn s \<and> session_new s' = []"
    by (auto simp: flush_def split: if_splits sum.splits dest!: storage_call_Inr)
  with assms(1) show ?thesis by (simp add: specialties_inv_def)
next
  case False
  from flush_pending[OF assms(2) False] obtain f s2 where
    a: "insert_all (session_new s) (s\<lparr>fault := f\<rparr>) = Inr s2"
    and b: "s' = s2\<lparr>session_new := [], dirty := False\<rparr>" by blast
  from assms(1) have "rows_explained ods n (txn (s\<lparr>fault := f\<rparr>))"
    "\<forall>p\<in>set (session_new s). pending_explained ods (txn (s\<lparr>fault := f\<rparr>)) p"
    by (simp_all add: specialties_inv_def)
  from insert_all_specialties[OF a this] b show ?thesis by (simp add: specialties_inv_def)
qed

lemma query_first_specialties:
  assumes "specialties_inv ods n s"
  shows "res_holds (specialties_inv ods n) (query_first tbl P s)"
proof (cases "query_first tbl P s")
  case (Inl a)
  then show ?thesis by simp
next
  case (Inr b)
  obtain r s' where b: "b = (r, s')" by (cases b)
  from Inr b obtain s1 where f: "flush s = Inr s1" and c: "storage_call s1 = Inr s'"
    by (auto simp: query_first_def split: sum.splits)
  from storage_call_Inr[OF c] flush_specialties[OF assms f] have "specialties_inv ods n s'"
    by auto
  with Inr b show ?thesis by simp
qed

lemma session_add_specialties:
  assumes "specialties_inv ods n s" and "pending_explained ods (txn s) (mk (next_token s))"
  shows "specialties_inv ods n (snd (session_add mk s))"
  using assms by (simp add: session_add_def specialties_inv_def)

lemma pending_explained_set_parent [simp]:
  "pending_explained ods d (set_pending_parent t v p) = pending_explained ods d p"
  by (cases p) simp_all

lemma set_parent_id_specialties [simp]:
  "specialties_inv ods n (set_parent_id h v s) = specialties_inv ods n s"
proof -
  have a: "rows_explained ods n (d\<lparr>organizations := x\<rparr>) = rows_explained ods n d" for d x
    by (simp add: rows_explained_def specialty_explained_def group_row_coded_def)
  have b: "pending_explained ods (d\<lparr>organizations := x\<rparr>) p = pending_explained ods d p" for d x p
    by (rule pending_explained_cong) simp
  show ?thesis
    by (cases "handle_id s h"; cases h) (simp_all add: set_parent_id_def specialties_inv_def a b)
qed

lemma group_handle_iff:
  "group_handle s h k \<longleftrightarrow>
     group_resolved s h k
     \<or> (\<exists>t name. h = Created t \<and> NewSpecialtyGroup t k name \<in> set (session_new s))"
  by (simp add: group_handle_def group_resolved_def)

lemma handle_id_prefix:
  assumes "prefix (session_ident s) (session_ident s')" and "handle_id s h = Some i"
  shows "handle_id s' h = Some i"
  using assms by (cases h) (auto simp: handle_id_def intro: map_of_prefix_Some)

lemma group_resolved_evolves0:
  assumes "evolves0 s s'" and "group_resolved s h k"
  shows "group_resolved s' h k"
proof -
  from assms(1) have g: "grows (txn s) (txn s')" and p: "prefix (session_ident s) (session_ident s')"
    by (simp_all add: evolves0_def)
  from assms(2) obtain i where "handle_id s h = Some i" "group_row_coded (txn s) i k"
    by (auto simp: group_resolved_def)
  with handle_id_prefix[OF p] group_row_coded_grows[OF g] show ?thesis
    by (auto simp: group_resolved_def)
qed

lemma group_resolved_evolves:
  "evolves s s' \<Longrightarrow> group_resolved s h k \<Longrightarrow> group_resolved s' h k"
  by (rule group_resolved_evolves0) (simp_all add: evolves_def)

lemma groups_cache_settled_evolves:
  "evolves s s' \<Longrightarrow> groups_cache_settled c s \<Longrightarrow> groups_cache_settled c s'"
  unfolding groups_cache_settled_def using group_resolved_evolves by blast

lemma groups_cache_settled_ok: "groups_cache_settled c s \<Longrightarrow> groups_cache_ok c s"
  by (simp add: groups_cache_settled_def groups_cache_ok_def group_handle_iff)

lemma insert_group_Inr:
  assumes "insert_pending (NewSpecialtyGroup t k nm) s = Inr s'"
    and "t \<notin> set (map fst (session_ident s))"
  shows "group_resolved s' (Created t) k"
proof -
  from assms(1) obtain i where
    a: "session_ident s' = session_ident s @ [(t, i)]"
    and b: "specialty_groups (txn s') = specialty_groups (txn s) @ [\<lparr>g_id = i, g_code = k, g_name = nm\<rparr>]"
    by (auto simp: raise_error_def Let_def split: if_splits)
  from map_of_append_fresh[OF assms(2), of i] a have "handle_id s' (Created t) = Some i"
    by (simp add: handle_id_def del: map_of_append)
  moreover from b have "group_row_coded (txn s') i k" by (simp add: group_row_coded_def)
  ultimately show ?thesis by (auto simp: group_resolved_def)
qed

lemma insert_all_groups:
  assumes "insert_all ps s = Inr s'" and "distinct (map token ps)"
    and "\<forall>p\<in>set ps. token p \<notin> set (map fst (session_ident s))"
    and "group_resolved s h k \<or> (\<exists>t nm. h = Created t \<and> NewSpecialtyGroup t k nm \<in> set ps)"
  shows "group_resolved s' h k"
  using assms
proof (induction ps arbitrary: s)
  case Nil
  then show ?case by simp
next
  case (Cons p ps)
  from insert_all_Cons_Inr[OF Cons.prems(1)] obtain s1 where
    a: "insert_pending p s = Inr s1" and b: "insert_all ps s1 = Inr s'" by blast
  from insert_pending_Inr[OF a] have e: "evolves0 s s1"
    and id: "map fst (session_ident s1) = map fst (session_ident s) @ [token p]" by simp_all
  from Cons.prems(2) have d: "distinct (map token ps)" and np: "token p \<notin> set (map token ps)"
    by simp_all
  have fresh: "\<forall>q\<in>set ps. token q \<notin> set (map fst (session_ident s1))"
  proof
    fix q assume q: "q \<in> set ps"
    with Cons.prems(3) have "token q \<notin> set (map fst (session_ident s))" by simp
    moreover from q np have "token q \<noteq> token p" by (metis image_eqI set_map)
    ultimately show "token q \<notin> set (map fst (session_ident s1))" unfolding id by simp
  qed
  have "group_resolved s1 h k \<or> (\<exists>t nm. h = Created t \<and> NewSpecialtyGroup t k nm \<in> set ps)"
  proof (cases "group_resolved s h k")
    case True
    from group_resolved_evolves0[OF e this] show ?thesis by simp
  next
    case False
    with Cons.prems(4) obtain t nm where h: "h = Created t"
      and m: "NewSpecialtyGroup t k nm \<in> set (p # ps)" by blast
    show ?thesis
    proof (cases "p = NewSpecialtyGroup t k nm")
      case True
      from Cons.prems(3) True have "t \<notin> set (map fst (session_ident s))" by simp
      from insert_group_Inr[OF a[unfolded True] this] h show ?thesis by simp
    next
      case False
      with m h show ?thesis by auto
    qed
  qed
  from Cons.IH[OF b d fresh this] show ?case .
qed

lemma flush_groups:
  assumes wf: "wf_session s" and gh: "group_handle s h k" and fl: "flush s = Inr s'"
  shows "group_resolved s' h k"
proof (cases "session_new s = []")
  case True
  with fl have t: "txn s' = txn s" and i: "session_ident s' = session_ident s"
    by (auto simp: flush_def split: if_splits sum.splits dest!: storage_call_Inr)
  have "handle_id s' h = handle_id s h" by (rule handle_id_cong) (rule i)
  moreover from gh True have "group_resolved s h k" by (simp add: group_handle_iff)
  ultimately show ?thesis using t by (simp add: group_resolved_def)
next
  case False
  from flush_pending[OF fl False] obtain f s2 where
    a: "insert_all (session_new s) (s\<lparr>fault := f\<rparr>) = Inr s2"
    and b: "s' = s2\<lparr>session_new := [], dirty := False\<rparr>" by blast
  from wf have d: "distinct (map token (session_new s))"
    and fr: "\<forall>p\<in>set (session_new s). token p \<notin> set (map fst (session_ident (s\<lparr>fault := f\<rparr>)))"
    by (simp_all add: wf_session_def)
  from gh have "group_resolved (s\<lparr>fault := f\<rparr>) h k
      \<or> (\<exists>t nm. h = Created t \<and> NewSpecialtyGroup t k nm \<in> set (session_new s))"
    by (auto simp: group_handle_iff group_resolved_def)
  from insert_all_groups[OF a d fr this] have r: "group_resolved s2 h k" .
  have "handle_id s' h = handle_id s2 h" by (rule handle_id_cong) (simp add: b)
  with r b show ?thesis by (simp add: group_resolved_def)
qed

lemma query_first_groups:
  assumes wf: "wf_session s" and gc: "groups_cache_ok c s"
    and q: "query_first tbl P s = Inr (r, s')"
  shows "groups_cache_settled c s'"
proof -
  from q obtain s1 where f: "flush s = Inr s1" and c: "storage_call s1 = Inr s'"
    by (auto simp: query_first_def split: sum.splits)
  from storage_call_Inr[OF c] obtain fa where s': "s' = s1\<lparr>fault := fa\<rparr>" by blast
  show ?thesis
    unfolding groups_cache_settled_def
  proof (intro allI impI)
    fix k h assume "specialty_groups_cache c k = Some h"
    with gc have "group_handle s h k" by (simp add: groups_cache_ok_def)
    from flush_groups[OF wf this f] s' show "group_resolved s' h k"
      by (simp add: group_resolved_def)
  qed
qed

lemma group_handle_session_add:
  assumes "group_handle s h k"
  shows "group_handle (snd (session_add mk s)) h k"
proof -
  have "handle_id (snd (session_add mk s)) h = handle_id s h"
    by (rule handle_id_cong) (simp add: session_add_def)
  with assms show ?thesis
    unfolding group_handle_def by (auto simp: session_add_def)
qed

lemma groups_cache_ok_session_add:
  "groups_cache_ok c s \<Longrightarrow> groups_cache_ok c (snd (session_add mk s))"
  unfolding groups_cache_ok_def using group_handle_session_add by blast

lemma group_handle_log_append [simp]:
  "group_handle (log_append e s) h k = group_handle s h k"
proof -
  have "handle_id (log_append e s) h = handle_id s h"
    by (rule handle_id_cong) (simp add: log_append_def)
  then show ?thesis
    unfolding group_handle_def by (simp add: log_append_def)
qed

lemma groups_cache_ok_log_append [simp]:
  "groups_cache_ok c (log_append e s) = groups_cache_ok c s"
  by (simp add: groups_cache_ok_def)

lemma group_handle_set_parent_id:
  assumes "group_handle s h k"
  shows "group_handle (set_parent_id h' v s) h k"
proof -
  have g: "group_row_coded (txn (set_parent_id h' v s)) i k = group_row_coded (txn s) i k" for i
    by (rule group_row_coded_cong) (simp add: set_parent_id_def split: option.splits handle.splits)
  have id: "handle_id (set_parent_id h' v s) h = handle_id s h"
    by (rule handle_id_cong) (simp add: set_parent_id_def split: option.splits handle.splits)
  have m: "NewSpecialtyGroup t k nm \<in> set (session_new (set_parent_id h' v s))"
    if "NewSpecialtyGroup t k nm \<in> set (session_new s)" for t nm
  proof -
    have "set_pending_parent u v (NewSpecialtyGroup t k nm) = NewSpecialtyGroup t k nm" for u
      by simp
    with that have "NewSpecialtyGroup t k nm \<in> set_pending_parent u v ` set (session_new s)" for u
      by (metis image_eqI)
    with that show ?thesis
      by (simp add: set_parent_id_def split: option.splits handle.splits)
  qed
  from assms show ?thesis
    unfolding group_handle_def g id using m by blast
qed

lemma groups_cache_ok_set_parent_id:
  "groups_cache_ok c s \<Longrightarrow> groups_cache_ok c (set_parent_id h v s)"
  unfolding groups_cache_ok_def using group_handle_set_parent_id by blast

lemma group_handle_id:
  assumes "wf_session s" and "group_handle s h k" and "handle_id s h = Some gid"
  shows "group_row_coded (txn s) gid k"
proof (cases "group_resolved s h k")
  case True
  with assms(3) show ?thesis by (auto simp: group_resolved_def)
next
  case False
  with assms(2) obtain t nm where h: "h = Created t"
    and m: "NewSpecialtyGroup t k nm \<in> set (session_new s)"
    by (auto simp: group_handle_iff)
  from assms(1) m have "token (NewSpecialtyGroup t k nm) \<notin> set (map fst (session_ident s))"
    unfolding wf_session_def by blast
  then have "map_of (session_ident s) t = None" by (simp add: map_of_eq_None_iff)
  with h assms(3) show ?thesis by (simp add: handle_id_def)
qed

lemma query_first_found:
  "query_first tbl P s = Inr (r, s') \<Longrightarrow> r = find P (tbl (txn s'))"
  by (auto simp: query_first_def split: sum.splits dest!: storage_call_Inr)

lemma query_first_evolves: "query_first tbl P s = Inr (r, s') \<Longrightarrow> evolves s s'"
  using query_first_ok[of s tbl P] by (simp add: res_ok_def)

lemma evolves_wf: "evolves s s' \<Longrightarrow> wf_session s \<Longrightarrow> wf_session s'"
  by (simp add: evolves_def)

lemma evolves_grows: "evolves s s' \<Longrightarrow> grows (txn s) (txn s')"
  by (simp add: evolves_def evolves0_def)

lemma groups_cache_ok_cong:
  "specialty_groups_cache c' = specialty_groups_cache c \<Longrightarrow>
     groups_cache_ok c' s = groups_cache_ok c s"
  by (simp add: groups_cache_ok_def)

lemma query_first_programs_inv:
  assumes "programs_inv ods n c s" and q: "query_first tbl P s = Inr (r, s')"
  shows "programs_inv ods n c s'" and "groups_cache_settled c s'"
proof -
  from assms(1) have wf: "wf_session s" and si: "specialties_inv ods n s"
    and gc: "groups_cache_ok c s" by (simp_all add: programs_inv_def)
  from query_first_groups[OF wf gc q] show st: "groups_cache_settled c s'" .
  from query_first_specialties[OF si, of tbl P] q have "specialties_inv ods n s'" by simp
  with evolves_wf[OF query_first_evolves[OF q] wf] groups_cache_settled_ok[OF st]
  show "programs_inv ods n c s'" by (simp add: programs_inv_def)
qed

lemma session_add_evolves_snd:
  assumes "\<And>t. token (mk t) = t"
  shows "evolves s (snd (session_add mk s))"
  by (rule session_add_evolves_gen[where mk=mk and h="fst (session_add mk s)"])
     (simp_all add: assms)

lemma session_add_programs_inv:
  assumes "programs_inv ods n c s" and "pending_explained ods (txn s) (mk (next_token s))"
    and "\<And>t. token (mk t) = t"
  shows "programs_inv ods n c (snd (session_add mk s))"
  using assms(1,2) session_add_specialties[of ods n s mk] groups_cache_ok_session_add[of c s mk]
    session_add_evolves_snd[of mk s, OF assms(3)]
  by (simp add: programs_inv_def evolves_def)

lemma resolve_group_programs_inv:
  assumes inv: "programs_inv ods n c s" and rg: "resolve_group pd c s = Inr ((g, c1), s1)"
  shows "programs_inv ods n c1 s1 \<and> group_handle s1 g (ugs_code pd)"
proof (cases "specialty_groups_cache c (ugs_code pd)")
  case (Some g')
  with rg have "g = g'" "c1 = c" "s1 = s" by (simp_all add: resolve_group_def)
  with inv Some show ?thesis by (simp add: programs_inv_def groups_cache_ok_def)
next
  case None
  from resolve_group_ok[of s pd c] rg have ev: "evolves s s1" by (simp add: res_ok_def)
  from inv have wf: "wf_session s" by (simp add: programs_inv_def)
  from None rg obtain created where
    gc: "get_or_create_SpecialtyGroup (ugs_code pd) (ugs_name pd) s = Inr ((g, created), s1)"
    and c1: "c1 = c\<lparr>specialty_groups_cache := (specialty_groups_cache c)(ugs_code pd \<mapsto> g)\<rparr>"
    by (auto simp: resolve_group_def split: sum.splits)
  from gc obtain ro sq where
    q: "query_first specialty_groups (\<lambda>r. g_code r = ugs_code pd) s = Inr (ro, sq)"
    by (auto simp: get_or_create_SpecialtyGroup_def split: sum.splits)
  from query_first_programs_inv[OF inv q] have i1: "programs_inv ods n c sq"
    and st: "groups_cache_settled c sq" by simp_all
  have r: "programs_inv ods n c s1 \<and> group_handle s1 g (ugs_code pd)"
  proof (cases ro)
    case (Some row)
    with gc q have g: "g = Loaded (g_id row)" and s1: "s1 = sq"
      by (simp_all add: get_or_create_SpecialtyGroup_def)
    from query_first_found[OF q] Some
    have "find (\<lambda>r. g_code r = ugs_code pd) (specialty_groups (txn sq)) = Some row" by simp
    from find_Some_set[OF this] have "group_row_coded (txn sq) (g_id row) (ugs_code pd)"
      by (auto simp: group_row_coded_def)
    with g s1 i1 show ?thesis by (simp add: group_handle_def)
  next
    case None
    with gc q have g: "g = Created (next_token sq)"
      and s1: "s1 = snd (session_add (\<lambda>t. NewSpecialtyGroup t (ugs_code pd) (ugs_name pd)) sq)"
      by (simp_all add: get_or_create_SpecialtyGroup_def session_add_def)
    have "programs_inv ods n c s1"
      unfolding s1 by (rule session_add_programs_inv[OF i1]) simp_all
    moreover have "group_handle s1 g (ugs_code pd)"
      unfolding group_handle_def g s1 by (rule disjI2) (auto simp: session_add_def)
    ultimately show ?thesis by simp
  qed
  then have "group_handle s1 g (ugs_code pd)" and p: "programs_inv ods n c s1" by simp_all
  then have "groups_cache_ok c1 s1"
    unfolding c1 by (auto simp: groups_cache_ok_def programs_inv_def)
  with p r show ?thesis by (simp add: programs_inv_def)
qed

lemma resolve_specialty_programs_inv:
  assumes inv: "programs_inv ods n c s" and gh: "group_handle s g (ugs_code pd)"
    and po: "program_of ods (specialty_code pd) (ugs_code pd)"
    and rs: "resolve_specialty pd g c s = Inr ((sp, c2), s2)"
  shows "programs_inv ods n c2 s2"
proof (cases "specialties_cache c (specialty_code pd)")
  case (Some sp')
  with rs have "c2 = c" "s2 = s" by (simp_all add: resolve_specialty_def)
  with inv show ?thesis by simp
next
  case None
  from inv have wf: "wf_session s" by (simp add: programs_inv_def)
  from None rs obtain created where
    gc: "get_or_create_Specialty (specialty_code pd) (specialty_name pd) (handle_id s g) s
           = Inr ((sp, created), s2)"
    and c2: "c2 = c\<lparr>specialties_cache := (specialties_cache c)(specialty_code pd \<mapsto> sp)\<rparr>"
    by (auto simp: resolve_specialty_def split: sum.splits)
  from gc obtain ro sq where
    q: "query_first specialties (\<lambda>r. s_code r = specialty_code pd) s = Inr (ro, sq)"
    by (auto simp: get_or_create_Specialty_def split: sum.splits)
  from query_first_programs_inv[OF inv q] have i1: "programs_inv ods n c sq" by simp
  have "programs_inv ods n c s2"
  proof (cases ro)
    case (Some row)
    with gc q have "s2 = sq" by (simp add: get_or_create_Specialty_def)
    with i1 show ?thesis by simp
  next
    case None
    with gc q have s2: "s2 = snd (session_add (\<lambda>t. NewSpecialty t (specialty_code pd)
                                    (specialty_name pd) (handle_id s g)) sq)"
      by (simp add: get_or_create_Specialty_def session_add_def)
    have pe: "pending_explained ods (txn sq)
               (NewSpecialty (next_token sq) (specialty_code pd) (specialty_name pd) (handle_id s g))"
    proof (cases "handle_id s g")
      case None
      then show ?thesis by simp
    next
      case (Some gid)
      from group_handle_id[OF wf gh Some] have "group_row_coded (txn s) gid (ugs_code pd)" .
      from group_row_coded_grows[OF evolves_grows[OF query_first_evolves[OF q]] this] po Some
      show ?thesis by auto
    qed
    show ?thesis
      unfolding s2
      by (rule session_add_programs_inv[where mk="\<lambda>t. NewSpecialty t (specialty_code pd)
              (specialty_name pd) (handle_id s g)", OF i1 pe]) simp
  qed
  then show ?thesis
    unfolding c2 by (simp add: programs_inv_def groups_cache_ok_def)
qed

lemma program_step_programs_inv:
  assumes inv: "programs_inv ods n c s" and od: "od \<in> set ods" "ogrn od \<noteq> []"
    and pd: "pd \<in> set (programs od)"
    and st: "program_step h pd c s = Inr (c', s')"
  shows "programs_inv ods n c' s'"
proof (cases "specialty_code pd = [] \<or> ugs_code pd = []")
  case True
  with st inv show ?thesis by (auto simp: program_step_def)
next
  case False
  with od pd have po: "program_of ods (specialty_code pd) (ugs_code pd)"
    by (auto simp: program_of_def)
  from False st obtain g c1 s1 where rg: "resolve_group pd c s = Inr ((g, c1), s1)"
    by (auto simp: program_step_def split: sum.splits)
  from resolve_group_programs_inv[OF inv rg] have i1: "programs_inv ods n c1 s1"
    and gh: "group_handle s1 g (ugs_code pd)" by simp_all
  from False st rg obtain sp c2 s2 where rs: "resolve_specialty pd g c1 s1 = Inr ((sp, c2), s2)"
    by (auto simp: program_step_def split: sum.splits)
  from resolve_specialty_programs_inv[OF i1 gh po rs] have i2: "programs_inv ods n c2 s2" .
  from False st rg rs obtain found s3 where
    q: "query_first programs_table
          (\<lambda>r. Some (p_organization_id r) = handle_id s2 h
                \<and> Some (p_specialty_id r) = handle_id s2 sp) s2 = Inr (found, s3)"
    by (auto simp: program_step_def Let_def split: sum.splits)
  from query_first_programs_inv[OF i2 q] have i3: "programs_inv ods n c2 s3" by simp
  show ?thesis
  proof (cases found)
    case (Some row)
    with False st rg rs q have "c' = c2" "s' = s3" by (simp_all add: program_step_def Let_def)
    with i3 show ?thesis by simp
  next
    case None
    with False st rg rs q have c': "c' = c2"
      and s': "s' = snd (session_add (\<lambda>t. NewProgram t (handle_id s3 h) (handle_id s3 sp)) s3)"
      by (simp_all add: program_step_def Let_def)
    show ?thesis
      unfolding s' c' by (rule session_add_programs_inv[OF i3]) simp_all
  qed
qed

lemma programs_loop_programs_inv:
  assumes "programs_inv ods n c s" and "od \<in> set ods" "ogrn od \<noteq> []"
    and "set pds \<subseteq> set (programs od)"
    and "programs_loop h pds c s = Inr (c', s')"
  shows "programs_inv ods n c' s'"
  using assms(1,4,5)
proof (induction pds arbitrary: c s)
  case Nil
  then show ?case by simp
next
  case (Cons pd pds)
  from Cons.prems(3) obtain c1 s1 where a: "program_step h pd c s = Inr (c1, s1)"
    and b: "programs_loop h pds c1 s1 = Inr (c', s')"
    by (auto split: sum.splits)
  from Cons.prems(2) have pd: "pd \<in> set (programs od)" and sub: "set pds \<subseteq> set (programs od)"
    by simp_all
  from program_step_programs_inv[OF Cons.prems(1) assms(2,3) pd a]
  have "programs_inv ods n c1 s1" .
  from Cons.IH[OF this sub b] show ?case .
qed

lemma link_parent_programs_inv:
  assumes inv: "programs_inv ods n c s" and lp: "link_parent od h c s = Inr (u, s')"
  shows "programs_inv ods n c s'"
proof -
  from link_parent_ok[of s od h c] lp have ev: "evolves s s'" by (simp add: res_ok_def)
  from inv have wf: "wf_session s" by (simp add: programs_inv_def)
  from evolves_wf[OF ev wf] have wf': "wf_session s'" .
  show ?thesis
  proof (cases "parent_ogrn od")
    case None
    with lp inv show ?thesis by (simp add: link_parent_def)
  next
    case (Some p)
    show ?thesis
    proof (cases "\<not> is_branch od \<or> p = []")
      case True
      with Some lp inv show ?thesis by (auto simp: link_parent_def)
    next
      case False
      with Some lp obtain ph s1 where fp: "find_parent p c s = Inr (ph, s1)"
        by (auto simp: link_parent_def split: sum.splits)
      have i1: "programs_inv ods n c s1"
      proof (cases "organizations_cache c p")
        case (Some x)
        with fp have "s1 = s" by (simp add: find_parent_def)
        with inv show ?thesis by simp
      next
        case None
        with fp obtain found where
          "query_first organizations (\<lambda>r. eo_ogrn r = Some p) s = Inr (found, s1)"
          by (auto simp: find_parent_def split: sum.splits)
        from query_first_programs_inv(1)[OF inv this] show ?thesis .
      qed
      show ?thesis
      proof (cases ph)
        case None
        with Some False lp fp have "s' = log_append (WarnParentNotFound p (ogrn od)) s1"
          by (simp add: link_parent_def)
        with i1 wf' show ?thesis by (simp add: programs_inv_def)
      next
        case (Some parent_h)
        with \<open>parent_ogrn od = Some p\<close> False lp fp
        have "s' = set_parent_id h (handle_id s1 parent_h) s1" by (simp add: link_parent_def)
        with i1 wf' show ?thesis
          by (simp add: programs_inv_def groups_cache_ok_set_parent_id)
      qed
    qed
  qed
qed

lemma second_pass_step_programs_inv:
  assumes inv: "programs_inv ods n c s" and od: "od \<in> set ods"
    and st: "second_pass_step od c s = Inr (c', s')"
  shows "programs_inv ods n c' s'"
proof (cases "ogrn od = [] \<or> organizations_cache c (ogrn od) = None")
  case True
  then have "second_pass_step od c s = Inr (c, s)"
    by (cases "ogrn od = []") (simp_all add: second_pass_step_def)
  with st inv show ?thesis by simp
next
  case False
  then obtain h where h: "organizations_cache c (ogrn od) = Some h" and k: "ogrn od \<noteq> []" by auto
  with st obtain u s1 where lp: "link_parent od h c s = Inr (u, s1)"
    and pl: "programs_loop h (programs od) c s1 = Inr (c', s')"
    by (auto simp: second_pass_step_def split: sum.splits)
  from link_parent_programs_inv[OF inv lp] have "programs_inv ods n c s1" .
  from programs_loop_programs_inv[OF this od k _ pl] show ?thesis by simp
qed

lemma second_pass_programs_inv:
  assumes "programs_inv ods n c s" and "set xs \<subseteq> set ods"
    and "second_pass xs c s = Inr (c', s')"
  shows "programs_inv ods n c' s'"
  using assms
proof (induction xs arbitrary: c s)
  case Nil
  then show ?case by simp
next
  case (Cons od xs)
  from Cons.prems(3) obtain c1 s1 where a: "second_pass_step od c s = Inr (c1, s1)"
    and b: "second_pass xs c1 s1 = Inr (c', s')"
    by (auto split: sum.splits)
  from Cons.prems(2) have od: "od \<in> set ods" and sub: "set xs \<subseteq> set ods" by simp_all
  from second_pass_step_programs_inv[OF Cons.prems(1) od a] have "programs_inv ods n c1 s1" .
  from Cons.IH[OF this sub b] show ?case .
qed

lemma get_or_create_Region_specialties:
  assumes "specialties_inv ods n s"
  shows "res_holds (specialties_inv ods n) (get_or_create_Region name s)"
  unfolding get_or_create_Region_def
  apply (rule res_holds_bind[OF query_first_specialties[OF assms]])
  apply (auto simp: split: option.splits prod.splits)
  apply (simp add: session_add_def specialties_inv_def)
  done

lemma cached_region_specialties:
  assumes "specialties_inv ods n s"
  shows "res_holds (specialties_inv ods n) (cached_region name c s)"
proof (cases "regions_cache c name")
  case (Some h)
  with assms show ?thesis by (simp add: cached_region_def)
next
  case None
  then show ?thesis
    unfolding cached_region_def
    apply simp
    apply (rule res_holds_bind[OF get_or_create_Region_specialties[OF assms]])
    apply auto
    done
qed

lemma resolve_region_specialties:
  assumes "specialties_inv ods n s"
  shows "res_holds (specialties_inv ods n) (resolve_region od c s)"
proof (cases "region_name od \<noteq> []")
  case True
  then show ?thesis
    unfolding resolve_region_def
    apply simp
    apply (rule res_holds_bind[OF cached_region_specialties[OF assms]])
    apply auto
    done
next
  case False
  obtain ra w where e: "extract_region_from_address (address od) = (ra, w)"
    by (cases "extract_region_from_address (address od)")
  have s0: "specialties_inv ods n (s\<lparr>log := log s @ w\<rparr>)" using assms by simp
  show ?thesis
  proof (cases "ra = None \<or> ra = Some []")
    case True
    with False e s0 show ?thesis by (auto simp: resolve_region_def)
  next
    case False
    then obtain name where ra: "ra = Some name" "name \<noteq> []" by auto
    with \<open>\<not> region_name od \<noteq> []\<close> e show ?thesis
      unfolding resolve_region_def
      apply simp
      apply (rule res_holds_bind[OF cached_region_specialties[OF s0]])
      apply auto
      done
  qed
qed

lemma first_pass_step_specialties:
  assumes inv: "specialties_inv ods n s" and st: "first_pass_step od c s = Inr (c', s')"
  shows "specialties_inv ods n s' \<and> specialty_groups_cache c' = specialty_groups_cache c"
proof (cases "ogrn od = [] \<or> organizations_cache c (ogrn od) \<noteq> None")
  case True
  then have "first_pass_step od c s = Inr (c, log_append (WarnSkipWithoutOgrn (full_name od)) s)
      \<or> first_pass_step od c s = Inr (c, s)"
    by (auto simp: first_pass_step_def)
  with inv st show ?thesis by auto
next
  case False
  with st obtain ro s1 where
    q: "query_first organizations (\<lambda>r. eo_ogrn r = Some (ogrn od)) s = Inr (ro, s1)"
    by (auto simp: first_pass_step_def split: sum.splits)
  from query_first_specialties[OF inv, of organizations "\<lambda>r. eo_ogrn r = Some (ogrn od)"] q
  have i1: "specialties_inv ods n s1" by simp
  show ?thesis
  proof (cases ro)
    case (Some r)
    with False st q have "s' = s1" "specialty_groups_cache c' = specialty_groups_cache c"
      by (auto simp: first_pass_step_def)
    with i1 show ?thesis by simp
  next
    case None
    with False st q obtain region c2 s2 where
      rr: "resolve_region od c s1 = Inr ((region, c2), s2)"
      by (auto simp: first_pass_step_def split: sum.splits)
    from resolve_region_specialties[OF i1, of od c] rr have i2: "specialties_inv ods n s2"
      by simp
    let ?mk = "\<lambda>t. NewOrganization t (full_name od) (Some (short_name od))
                     (Some (ogrn od)) (Some (inn od)) (Some (address od)) region None"
    from None False st q rr have fl: "flush (snd (session_add ?mk s2)) = Inr s'"
      and c': "c' = c2\<lparr>organizations_cache := (organizations_cache c2)(ogrn od \<mapsto>
                         fst (session_add ?mk s2))\<rparr>"
      by (auto simp: first_pass_step_def Let_def split: sum.splits prod.splits)
    have "specialties_inv ods n (snd (session_add ?mk s2))"
      by (rule session_add_specialties[OF i2]) simp
    from flush_specialties[OF this fl] have "specialties_inv ods n s'" .
    moreover from rr have "specialty_groups_cache c2 = specialty_groups_cache c"
      by (auto simp: resolve_region_def cached_region_def Let_def
          split: if_splits sum.splits prod.splits option.splits)
    ultimately show ?thesis using c' by simp
  qed
qed

lemma first_pass_specialties:
  assumes "specialties_inv ods n s" and "first_pass xs c s = Inr (c', s')"
  shows "specialties_inv ods n s' \<and> specialty_groups_cache c' = specialty_groups_cache c"
  using assms
proof (induction xs arbitrary: c s)
  case Nil
  then show ?case by simp
next
  case (Cons od xs)
  from Cons.prems(2) obtain c1 s1 where a: "first_pass_step od c s = Inr (c1, s1)"
    and b: "first_pass xs c1 s1 = Inr (c', s')"
    by (auto split: sum.splits)
  from first_pass_step_specialties[OF Cons.prems(1) a]
  have i1: "specialties_inv ods n s1" and g1: "specialty_groups_cache c1 = specialty_groups_cache c"
    by simp_all
  from Cons.IH[OF i1 b] g1 show ?case by simp
qed

lemma commit_specialties:
  assumes "specialties_inv ods n s" and "commit s = Inr s'"
  shows "rows_explained ods n (storage s')"
proof -
  from assms(2) obtain s1 s2 where f: "flush s = Inr s1" and c: "storage_call s1 = Inr s2"
    and s': "s' = s2\<lparr>storage := txn s2, commits := Suc (commits s2)\<rparr>"
    by (auto simp: commit_def split: sum.splits)
  from flush_specialties[OF assms(1) f] have "rows_explained ods n (txn s1)"
    by (simp add: specialties_inv_def)
  moreover from storage_call_Inr[OF c] have "txn s2 = txn s1" by auto
  ultimately show ?thesis using s' by simp
qed

lemma wf_session_log_append [simp]: "wf_session (log_append e s) = wf_session s"
  by (simp add: wf_session_def log_append_def)

lemma rows_explained_start: "rows_explained ods (length (specialties d)) d"
  by (simp add: rows_explained_def)

lemma run_specialties:
  assumes run: "populate_db ods (Some a) st = (None, st')" and ne: "ods \<noteq> []"
  shows "rows_explained ods (length (specialties (storage st))) (storage st')"
proof -
  let ?n = "length (specialties (storage st))"
  from populate_db_success[OF run ne] obtain c1 s1 c2 s2 s3 where
    fp: "first_pass ods empty_caches (run_start st) = Inr (c1, s1)"
    and sp: "second_pass ods c1 (pass2_start s1) = Inr (c2, s2)"
    and cm: "commit (log_append (Info ''second pass done'') s2) = Inr s3"
    and st': "st' = log_append (Info ''populate done'') s3"
    by blast
  have "specialties_inv ods ?n (run_start st)"
    by (simp add: specialties_inv_def rows_explained_start)
       (simp add: run_start_def session_start_def log_append_def)
  from first_pass_specialties[OF this fp]
  have i1: "specialties_inv ods ?n s1"
    and g1: "specialty_groups_cache c1 = specialty_groups_cache empty_caches" by simp_all
  from first_pass_list_inv[OF first_pass_inv_start fp] have "wf_session s1"
    by (simp add: first_pass_inv_def)
  moreover from g1 have "groups_cache_ok c1 s1"
    by (simp add: groups_cache_ok_def empty_caches_def)
  ultimately have "programs_inv ods ?n c1 (pass2_start s1)"
    using i1 by (simp add: programs_inv_def pass2_start_def)
  from second_pass_programs_inv[OF this _ sp] have "programs_inv ods ?n c2 s2" by simp
  then have "specialties_inv ods ?n (log_append (Info ''second pass done'') s2)"
    by (simp add: programs_inv_def)
  from commit_specialties[OF this cm] st' show ?thesis by (simp add: log_append_def)
qed

section \<open>The group of a created specialty\<close>

text \<open>
  C9. Whatever the records, the state and the outcome of the run: the specialty rows of
  the storage before the run are its first rows afterwards, and every row after them,
  so every specialty row the run created, has the specialty code of a program of the
  records (of a record with an OGRN, the program with a specialty code and a group
  code), and its \<open>group_id\<close> is the key of a group row of the storage whose code is that
  program's group code. The column is not nullable, so the reference is not null. (When
  the group and the specialty are both created for the same program, no row is created
  at all: the flush rejects the specialty and the run raises, as
  \<open>specialty_of_new_group_is_rejected\<close> shows.)
\<close>

theorem created_specialty_group:
  "take (length (specialties (storage st)))
        (specialties (storage (snd (populate_db ods app_opt st)))) = specialties (storage st)
   \<and> (\<forall>r\<in>set (drop (length (specialties (storage st)))
                   (specialties (storage (snd (populate_db ods app_opt st))))).
         \<exists>od\<in>set ods. \<exists>pd\<in>set (programs od).
            ogrn od \<noteq> [] \<and> specialty_code pd \<noteq> [] \<and> ugs_code pd \<noteq> []
            \<and> s_code r = specialty_code pd
            \<and> (\<exists>g\<in>set (specialty_groups (storage (snd (populate_db ods app_opt st)))).
                  g_code g = ugs_code pd \<and> g_id g = s_group_id r))"
proof -
  let ?st' = "snd (populate_db ods app_opt st)"
  let ?n = "length (specialties (storage st))"
  from populate_db_grows[where st=st and ods=ods and app_opt=app_opt]
  have "prefix (specialties (storage st)) (specialties (storage ?st'))"
    by (simp add: grows_def)
  then have a: "take ?n (specialties (storage ?st')) = specialties (storage st)"
    by (auto simp: prefix_def)
  have "rows_explained ods ?n (storage ?st')"
  proof (cases "fst (populate_db ods app_opt st) \<noteq> None \<or> ods = [] \<or> app_opt = None")
    case True
    from populate_db_failed_storage[OF this] show ?thesis
      by (simp add: rows_explained_start)
  next
    case False
    then obtain a where "app_opt = Some a" and ne: "ods \<noteq> []"
      and run: "populate_db ods (Some a) st = (None, ?st')"
      by (auto simp: prod_eq_iff)
    from run_specialties[OF run ne] show ?thesis .
  qed
  then have re: "\<forall>r\<in>set (drop ?n (specialties (storage ?st'))).
         specialty_explained ods (storage ?st') r"
    by (simp add: rows_explained_def)
  have "\<forall>r\<in>set (drop ?n (specialties (storage ?st'))).
         \<exists>od\<in>set ods. \<exists>pd\<in>set (programs od).
            ogrn od \<noteq> [] \<and> specialty_code pd \<noteq> [] \<and> ugs_code pd \<noteq> []
            \<and> s_code r = specialty_code pd
            \<and> (\<exists>g\<in>set (specialty_groups (storage ?st')).
                  g_code g = ugs_code pd \<and> g_id g = s_group_id r)"
  proof
    fix r assume "r \<in> set (drop ?n (specialties (storage ?st')))"
    with re have "specialty_explained ods (storage ?st') r" by blast
    then obtain od pd g where "od \<in> set ods" "pd \<in> set (programs od)" "ogrn od \<noteq> []"
      "specialty_code pd = s_code r" "s_code r \<noteq> []" "ugs_code pd \<noteq> []"
      "g \<in> set (specialty_groups (storage ?st'))" "g_id g = s_group_id r"
      "g_code g = ugs_code pd"
      unfolding specialty_explained_def program_of_def group_row_coded_def by blast
    then show "\<exists>od\<in>set ods. \<exists>pd\<in>set (programs od).
            ogrn od \<noteq> [] \<and> specialty_code pd \<noteq> [] \<and> ugs_code pd \<noteq> []
            \<and> s_code r = specialty_code pd
            \<and> (\<exists>g\<in>set (specialty_groups (storage ?st')).
                  g_code g = ugs_code pd \<and> g_id g = s_group_id r)"
      by (intro bexI[of _ od] bexI[of _ pd] conjI bexI[of _ g]) simp_all
  qed
  with a show ?thesis by simp
qed

text \<open>
  The witness: the storage holds the group "G" with the key 5; the run of organization
  "1" with the program "A" of group "G" creates the specialty "A" with \<open>group_id\<close> 5.
\<close>

lemma run_org_one_program:
  "specialties (storage (snd (populate_db [org_one\<lparr>programs := [program_a]\<rparr>] (Some FlaskApp)
                                 (fresh_state db_one_group))))
     = [\<lparr>s_id = 1, s_code = [65], s_name = [66], s_group_id = 5\<rparr>]"
  "specialty_groups (storage (snd (populate_db [org_one\<lparr>programs := [program_a]\<rparr>]
                                 (Some FlaskApp) (fresh_state db_one_group))))
     = [\<lparr>g_id = 5, g_code = [71], g_name = []\<rparr>]"
  by (simp_all add: run_defs org_one_def program_a_def fresh_state_def empty_db_def
      db_one_group_def extract_region_empty)

theorem created_specialty_group_witness:
  "specialties (storage (fresh_state db_one_group)) = []
   \<and> specialties (storage (snd (populate_db [org_one\<lparr>programs := [program_a]\<rparr>]
                                  (Some FlaskApp) (fresh_state db_one_group))))
       = [\<lparr>s_id = 1, s_code = [65], s_name = [66], s_group_id = 5\<rparr>]
   \<and> (\<exists>g\<in>set (specialty_groups (storage (snd (populate_db
                    [org_one\<lparr>programs := [program_a]\<rparr>] (Some FlaskApp)
                    (fresh_state db_one_group))))).
         g_code g = ugs_code program_a \<and> g_id g = 5)"
proof -
  have e: "specialties (storage (fresh_state db_one_group)) = []"
    by (simp add: fresh_state_def db_one_group_def empty_db_def)
  from created_specialty_group[where st="fresh_state db_one_group"
      and ods="[org_one\<lparr>programs := [program_a]\<rparr>]" and app_opt="Some FlaskApp"]
  show ?thesis
    unfolding run_org_one_program(1) e by simp
qed

section \<open>The parent of a branch, assigned\<close>






lemma link_effect_ids [simp]: "map eo_id (link_effect od xs) = map eo_id xs"
  by (rule map_strip_eq_ids) simp







end
